theory Spec2Isabelle
  imports Complex_Main "HOL-Library.Product_Lexorder"
begin

section \<open>Text and bytes\<close>

text \<open>
  A Python \<open>bytes\<close> value is a list of 8-bit characters. A Python \<open>str\<close> is modelled as
  a \<open>string\<close> as well: every character stands for one code point below 256, so the
  model covers text of the Latin-1 range, on which the character classes of \<open>re\<close>
  and \<open>str.lower\<close> are the ones written out below.
\<close>

type_synonym bytes = "char list"

definition startswith :: "'a list \<Rightarrow> 'a list \<Rightarrow> bool" where
  "startswith s p = (take (length p) s = p)"

definition endswith :: "'a list \<Rightarrow> 'a list \<Rightarrow> bool" where
  "endswith s p = (length p \<le> length s \<and> drop (length s - length p) s = p)"

text \<open>\<open>p in s\<close> on strings and bytes: \<open>p\<close> occurs as a contiguous slice of \<open>s\<close>.\<close>

fun contains :: "'a list \<Rightarrow> 'a list \<Rightarrow> bool" where
  "contains [] p = (p = [])"
| "contains (x # xs) p = (startswith (x # xs) p \<or> contains xs p)"

definition lower_char :: "char \<Rightarrow> char" where
  "lower_char c =
     (let n = (of_char c :: nat) in
      if (65 \<le> n \<and> n \<le> 90) \<or> (192 \<le> n \<and> n \<le> 222 \<and> n \<noteq> 215)
      then char_of (n + 32) else c)"

definition lower :: "string \<Rightarrow> string" where
  "lower s = map lower_char s"

text \<open>The bytes that \<open>bytes.lstrip()\<close> removes: space, tab, LF, CR, VT, FF.\<close>

definition bytes_space :: "char \<Rightarrow> bool" where
  "bytes_space c = (c \<in> set [CHR 0x20, CHR 0x09, CHR 0x0A, CHR 0x0D, CHR 0x0B, CHR 0x0C])"

definition bytes_lstrip :: "bytes \<Rightarrow> bytes" where
  "bytes_lstrip b = dropWhile bytes_space b"

section \<open>Payload validation: \<open>is_image_bytes\<close>\<close>

definition jpeg_magic :: bytes where
  "jpeg_magic = [CHR 0xFF, CHR 0xD8, CHR 0xFF]"

definition png_magic :: bytes where
  "png_magic = [CHR 0x89, CHR ''P'', CHR ''N'', CHR ''G'', CHR 0x0D, CHR 0x0A, CHR 0x1A, CHR 0x0A]"

text \<open>
  The first statement returns \<open>True\<close> on a declared image content type, before any byte
  is read. In the returned expression \<open>and\<close> binds tighter than \<open>or\<close>, and the test for
  leading markup applies to the parenthesised signature test.
\<close>

definition is_image_bytes :: "bytes \<Rightarrow> string option \<Rightarrow> bool" where
  "is_image_bytes data ctype =
     (if (case ctype of None \<Rightarrow> False
          | Some c \<Rightarrow> c \<noteq> [] \<and> startswith (lower c) ''image/'')
      then True
      else
        (let sig = take 16 data in
           (startswith sig jpeg_magic \<or>
            startswith sig png_magic \<or>
            (startswith sig ''RIFF'' \<and> contains (take 64 data) ''WEBP''))
           \<and> \<not> (startswith (bytes_lstrip sig) ''<'' \<or>
                startswith (bytes_lstrip sig) ''{'' \<or>
                startswith (bytes_lstrip sig) ''<!'')))"

section \<open>Exceptions\<close>

text \<open>
  The exceptions that reach the program. The first four are the classes named in the
  \<open>except\<close> clause of \<open>fetch\<close>; everything else that \<open>urlopen\<close> or \<open>read\<close> can raise is
  \<open>OtherError\<close>.
\<close>

datatype exn =
    HTTPError nat
  | URLError string
  | TimeoutError
  | SSLError string
  | ValueError string
  | RuntimeError string
  | OtherError string

section \<open>String operations of Python\<close>

definition before :: "char \<Rightarrow> string \<Rightarrow> string" where
  "before c s = takeWhile (\<lambda>x. x \<noteq> c) s"

definition after :: "char \<Rightarrow> string \<Rightarrow> string" where
  "after c s = drop 1 (dropWhile (\<lambda>x. x \<noteq> c) s)"

text \<open>\<open>s.strip(chars)\<close>, the characters given as a class.\<close>

definition strip :: "(char \<Rightarrow> bool) \<Rightarrow> string \<Rightarrow> string" where
  "strip p s = rev (dropWhile p (rev (dropWhile p s)))"

text \<open>\<open>s.split(c)\<close>: never empty, the empty string splits into one empty piece.\<close>

fun split_on :: "char \<Rightarrow> string \<Rightarrow> string list" where
  "split_on c [] = [[]]"
| "split_on c (x # xs) =
     (if x = c then [] # split_on c xs
      else (case split_on c xs of [] \<Rightarrow> [[x]] | h # t \<Rightarrow> (x # h) # t))"

fun join :: "string \<Rightarrow> string list \<Rightarrow> string" where
  "join sep [] = []"
| "join sep [x] = x"
| "join sep (x # y # ys) = x @ sep @ join sep (y # ys)"

definition digit :: "char \<Rightarrow> bool" where
  "digit c = (c \<in> set ''0123456789'')"

definition ascii_alpha :: "char \<Rightarrow> bool" where
  "ascii_alpha c = (c \<in> set ''abcdefghijklmnopqrstuvwxyzABCDEFGHIJKLMNOPQRSTUVWXYZ'')"

text \<open>The white space of \<open>str.strip()\<close> and of \<open>\s\<close> in a \<open>str\<close> pattern, below 256.\<close>

definition uni_space :: "char \<Rightarrow> bool" where
  "uni_space c = (c \<in> set [CHR 0x09, CHR 0x0A, CHR 0x0B, CHR 0x0C, CHR 0x0D, CHR 0x1C,
     CHR 0x1D, CHR 0x1E, CHR 0x1F, CHR 0x20, CHR 0x85, CHR 0xA0])"

text \<open>\<open>str(n)\<close> for a natural number, and the format \<open>{n:0{w}d}\<close>.\<close>

fun str_nat :: "nat \<Rightarrow> string" where
  "str_nat n = (if n < 10 then [''0123456789'' ! n]
                else str_nat (n div 10) @ [''0123456789'' ! (n mod 10)])"

declare str_nat.simps [simp del]

definition zero_pad :: "nat \<Rightarrow> nat \<Rightarrow> string" where
  "zero_pad w n = replicate (w - length (str_nat n)) (CHR ''0'') @ str_nat n"

text \<open>\<open>int(g)\<close> on the strings a \<open>\d+\<close> group can hold: the decimal value; on any other
  string of the model \<open>ValueError\<close>, here \<open>None\<close>.\<close>

definition digit_val :: "char \<Rightarrow> int" where
  "digit_val c = int (of_char c) - 48"

definition py_int :: "string \<Rightarrow> int option" where
  "py_int g = (if g \<noteq> [] \<and> list_all digit g
               then Some (foldl (\<lambda>a c. 10 * a + digit_val c) 0 g) else None)"

section \<open>The URL functions of the standard library\<close>

text \<open>
  The functions of \<open>urllib.parse\<close> that the program calls, after CPython 3.12. Two
  parts are not carried over in full: the check of a bracketed host (an IP literal,
  which \<open>ipaddress\<close> parses) is reduced to a check of its alphabet, and \<open>unquote\<close>
  decodes the escapes of ASCII bytes only, an escape of a byte from \<open>0x80\<close> on (part of
  a UTF-8 sequence) being left as written. No theorem below depends on either.
\<close>

record url_parts =
  u_scheme :: string
  u_netloc :: string
  u_path :: string
  u_params :: string
  u_query :: string
  u_fragment :: string

definition c0_or_space :: "char \<Rightarrow> bool" where
  "c0_or_space c = ((of_char c :: nat) \<le> 32)"

definition unsafe_url_byte :: "char \<Rightarrow> bool" where
  "unsafe_url_byte c = (c \<in> set [CHR 0x09, CHR 0x0D, CHR 0x0A])"

definition scheme_char :: "char \<Rightarrow> bool" where
  "scheme_char c = (ascii_alpha c \<or> digit c \<or> c \<in> set ''+-.'')"

definition uses_relative :: "string list" where
  "uses_relative = [[], ''ftp'', ''http'', ''gopher'', ''nntp'', ''imap'', ''wais'', ''file'',
     ''https'', ''shttp'', ''mms'', ''prospero'', ''rtsp'', ''rtsps'', ''rtspu'', ''sftp'',
     ''svn'', ''svn+ssh'', ''ws'', ''wss'']"

definition uses_netloc :: "string list" where
  "uses_netloc = [[], ''ftp'', ''http'', ''gopher'', ''nntp'', ''telnet'', ''imap'', ''wais'',
     ''file'', ''mms'', ''https'', ''shttp'', ''snews'', ''prospero'', ''rtsp'', ''rtsps'',
     ''rtspu'', ''rsync'', ''svn'', ''svn+ssh'', ''sftp'', ''nfs'', ''git'', ''git+ssh'',
     ''ws'', ''wss'', ''itms-services'']"

definition uses_params :: "string list" where
  "uses_params = [[], ''ftp'', ''hdl'', ''prospero'', ''http'', ''imap'', ''https'', ''shttp'',
     ''rtsp'', ''rtsps'', ''rtspu'', ''sip'', ''sips'', ''mms'', ''sftp'', ''tel'']"

definition hexdigit :: "char \<Rightarrow> bool" where
  "hexdigit c = (c \<in> set ''0123456789abcdefABCDEF'')"

definition bracketed_host_ok :: "string \<Rightarrow> bool" where
  "bracketed_host_ok h =
     (if startswith h ''v''
      then list_all hexdigit (before (CHR ''.'') (drop 1 h)) \<and> before (CHR ''.'') (drop 1 h) \<noteq> []
             \<and> after (CHR ''.'') (drop 1 h) \<noteq> []
      else CHR '':'' \<in> set h \<and> list_all (\<lambda>c. hexdigit c \<or> c \<in> set '':.%'') h)"

definition bracketed_netloc_ok :: "string \<Rightarrow> bool" where
  "bracketed_netloc_ok netloc =
     (let hp = rev (before (CHR ''@'') (rev netloc)) in
      if CHR ''['' \<in> set hp
      then before (CHR ''['') hp = []
           \<and> (after (CHR '']'') (after (CHR ''['') hp) = []
                \<or> startswith (after (CHR '']'') (after (CHR ''['') hp)) '':'')
           \<and> bracketed_host_ok (before (CHR '']'') (after (CHR ''['') hp))
      else bracketed_host_ok (before (CHR '':'') hp))"

definition urlsplit :: "string \<Rightarrow> string \<Rightarrow> exn + url_parts" where
  "urlsplit url0 scheme0 =
     (let url1 = filter (\<lambda>c. \<not> unsafe_url_byte c) (dropWhile c0_or_space url0);
          scheme1 = filter (\<lambda>c. \<not> unsafe_url_byte c) (strip c0_or_space scheme0);
          has_scheme = (CHR '':'' \<in> set url1 \<and> before (CHR '':'') url1 \<noteq> []
                         \<and> ascii_alpha (hd url1) \<and> list_all scheme_char (before (CHR '':'') url1));
          scheme = (if has_scheme then lower (before (CHR '':'') url1) else scheme1);
          url2 = (if has_scheme then after (CHR '':'') url1 else url1);
          has_netloc = (take 2 url2 = ''//'');
          netloc = (if has_netloc then takeWhile (\<lambda>c. c \<notin> set ''/?#'') (drop 2 url2) else []);
          url3 = (if has_netloc then dropWhile (\<lambda>c. c \<notin> set ''/?#'') (drop 2 url2) else url2)
      in if (CHR ''['' \<in> set netloc) \<noteq> (CHR '']'' \<in> set netloc)
         then Inl (ValueError ''Invalid IPv6 URL'')
         else if CHR ''['' \<in> set netloc \<and> \<not> bracketed_netloc_ok netloc
         then Inl (ValueError ''Invalid bracketed host'')
         else
           (let url4 = before (CHR ''#'') url3 in
            Inr \<lparr>u_scheme = scheme, u_netloc = netloc, u_path = before (CHR ''?'') url4,
                 u_params = [], u_query = after (CHR ''?'') url4,
                 u_fragment = after (CHR ''#'') url3\<rparr>))"

text \<open>\<open>_splitparams\<close>: the parameters start at the first \<open>;\<close> of the last path segment.\<close>

definition splitparams :: "string \<Rightarrow> string \<times> string" where
  "splitparams url =
     (let k = (if CHR ''/'' \<in> set url then length url - 1 - length (before (CHR ''/'') (rev url)) else 0);
          seg = drop k url
      in if CHR '';'' \<in> set seg then (take k url @ before (CHR '';'') seg, after (CHR '';'') seg)
         else (url, []))"

definition urlparse :: "string \<Rightarrow> string \<Rightarrow> exn + url_parts" where
  "urlparse url scheme0 =
     (case urlsplit url scheme0 of
        Inl e \<Rightarrow> Inl e
      | Inr p \<Rightarrow>
          if u_scheme p \<in> set uses_params \<and> CHR '';'' \<in> set (u_path p)
          then Inr (p\<lparr>u_path := fst (splitparams (u_path p)), u_params := snd (splitparams (u_path p))\<rparr>)
          else Inr p)"

definition urlunsplit :: "url_parts \<Rightarrow> string" where
  "urlunsplit p =
     (let url = u_path p;
          url = (if u_netloc p \<noteq> [] \<or> (u_scheme p \<noteq> [] \<and> u_scheme p \<in> set uses_netloc \<and> take 2 url \<noteq> ''//'')
                 then ''//'' @ u_netloc p @ (if url \<noteq> [] \<and> take 1 url \<noteq> ''/'' then ''/'' @ url else url)
                 else url);
          url = (if u_scheme p \<noteq> [] then u_scheme p @ '':'' @ url else url);
          url = (if u_query p \<noteq> [] then url @ ''?'' @ u_query p else url)
      in if u_fragment p \<noteq> [] then url @ ''#'' @ u_fragment p else url)"

definition urlunparse :: "url_parts \<Rightarrow> string" where
  "urlunparse p =
     urlunsplit (if u_params p \<noteq> [] then p\<lparr>u_path := u_path p @ '';'' @ u_params p\<rparr> else p)"

text \<open>The loop of \<open>urljoin\<close> that resolves \<open>.\<close> and \<open>..\<close> segments.\<close>

fun resolve_segments :: "string list \<Rightarrow> string list \<Rightarrow> string list" where
  "resolve_segments [] acc = acc"
| "resolve_segments (seg # segs) acc =
     (if seg = ''..'' then resolve_segments segs (butlast acc)
      else if seg = ''.'' then resolve_segments segs acc
      else resolve_segments segs (acc @ [seg]))"

text \<open>\<open>segments[1:-1] = filter(None, segments[1:-1])\<close>.\<close>

definition drop_empty_inner :: "string list \<Rightarrow> string list" where
  "drop_empty_inner segs =
     (if length segs \<le> 2 then segs
      else hd segs # filter (\<lambda>x. x \<noteq> []) (butlast (tl segs)) @ [last segs])"

definition urljoin :: "string \<Rightarrow> string \<Rightarrow> exn + string" where
  "urljoin base url =
     (if base = [] then Inr url
      else if url = [] then Inr base
      else
        (case urlparse base [] of
           Inl e \<Rightarrow> Inl e
         | Inr b \<Rightarrow>
            (case urlparse url (u_scheme b) of
               Inl e \<Rightarrow> Inl e
             | Inr u \<Rightarrow>
                 if u_scheme u \<noteq> u_scheme b \<or> u_scheme u \<notin> set uses_relative then Inr url
                 else if u_scheme u \<in> set uses_netloc \<and> u_netloc u \<noteq> [] then Inr (urlunparse u)
                 else
                   (let netloc = (if u_scheme u \<in> set uses_netloc then u_netloc b else u_netloc u) in
                    if u_path u = [] \<and> u_params u = []
                    then Inr (urlunparse (u\<lparr>u_netloc := netloc, u_path := u_path b,
                            u_params := u_params b,
                            u_query := (if u_query u = [] then u_query b else u_query u)\<rparr>))
                    else
                      (let base_parts = split_on (CHR ''/'') (u_path b);
                           base_parts = (if last base_parts \<noteq> [] then butlast base_parts else base_parts);
                           segments = (if take 1 (u_path u) = ''/'' then split_on (CHR ''/'') (u_path u)
                                       else drop_empty_inner (base_parts @ split_on (CHR ''/'') (u_path u)));
                           resolved = resolve_segments segments [];
                           resolved = (if last segments \<in> {''.'', ''..''} then resolved @ [[]] else resolved);
                           joined = join ''/'' resolved
                       in Inr (urlunparse (u\<lparr>u_netloc := netloc,
                                 u_path := (if joined = [] then ''/'' else joined)\<rparr>)))))))"






section \<open>Regular expressions\<close>

text \<open>
  The patterns of the program use literals, character classes, repeated classes (greedy
  and lazy), sequence, ordered alternation, optional groups, capturing groups and \<open>$\<close>.
  \<open>Rep greedy lo hi cls\<close> is \<open>cls{lo,hi}\<close>, with \<open>None\<close> for no upper bound.
\<close>

datatype rx =
    Lit string
  | One "char \<Rightarrow> bool"
  | Rep bool nat "nat option" "char \<Rightarrow> bool"
  | Cat rx rx
  | Alt rx rx
  | Opt rx
  | Grp nat rx
  | Eos

fun seq :: "rx list \<Rightarrow> rx" where
  "seq [] = Lit []"
| "seq [r] = r"
| "seq (r # rs) = Cat r (seq rs)"

fun alts :: "rx list \<Rightarrow> rx" where
  "alts [] = One (\<lambda>c. False)"
| "alts [r] = r"
| "alts (r # rs) = Alt r (alts rs)"

definition in_set :: "string \<Rightarrow> char \<Rightarrow> bool" where
  "in_set cs c = (c \<in> set cs)"

definition not_in :: "string \<Rightarrow> char \<Rightarrow> bool" where
  "not_in cs c = (c \<notin> set cs)"


text \<open>The captured groups of a match, the latest binding of a group first.\<close>

type_synonym caps = "(nat \<times> string) list"

type_synonym mres = "(string \<times> caps) option"

definition under :: "nat option \<Rightarrow> nat \<Rightarrow> bool" where
  "under hi n = (case hi of None \<Rightarrow> True | Some m \<Rightarrow> n < m)"

text \<open>
  A backtracking matcher in the order of \<open>re\<close>: the continuation \<open>k\<close> is the rest of the
  pattern, and the first way to match that lets \<open>k\<close> succeed is taken. A greedy
  repetition tries the longest run first, a lazy one the shortest.
\<close>

fun rep_greedy ::
  "(char \<Rightarrow> bool) \<Rightarrow> nat \<Rightarrow> nat option \<Rightarrow> nat \<Rightarrow> string \<Rightarrow> (string \<Rightarrow> mres) \<Rightarrow> mres" where
  "rep_greedy p lo hi n [] k = (if lo \<le> n then k [] else None)"
| "rep_greedy p lo hi n (x # xs) k =
     (if p x \<and> under hi n
      then (case rep_greedy p lo hi (Suc n) xs k of
              Some r \<Rightarrow> Some r
            | None \<Rightarrow> if lo \<le> n then k (x # xs) else None)
      else if lo \<le> n then k (x # xs) else None)"

fun rep_lazy ::
  "(char \<Rightarrow> bool) \<Rightarrow> nat \<Rightarrow> nat option \<Rightarrow> nat \<Rightarrow> string \<Rightarrow> (string \<Rightarrow> mres) \<Rightarrow> mres" where
  "rep_lazy p lo hi n [] k = (if lo \<le> n then k [] else None)"
| "rep_lazy p lo hi n (x # xs) k =
     (case (if lo \<le> n then k (x # xs) else None) of
        Some r \<Rightarrow> Some r
      | None \<Rightarrow> if p x \<and> under hi n then rep_lazy p lo hi (Suc n) xs k else None)"

text \<open>With \<open>re.IGNORECASE\<close> (the flag \<open>ic\<close>) a literal character matches in either case.\<close>

definition eq_char :: "bool \<Rightarrow> char \<Rightarrow> char \<Rightarrow> bool" where
  "eq_char ic a b = (if ic then lower_char a = lower_char b else a = b)"

fun lit :: "bool \<Rightarrow> string \<Rightarrow> string \<Rightarrow> string option" where
  "lit ic [] s = Some s"
| "lit ic (c # cs) [] = None"
| "lit ic (c # cs) (x # xs) = (if eq_char ic c x then lit ic cs xs else None)"

fun rx_m :: "bool \<Rightarrow> rx \<Rightarrow> string \<Rightarrow> caps \<Rightarrow> (string \<Rightarrow> caps \<Rightarrow> mres) \<Rightarrow> mres" where
  "rx_m ic (Lit t) s c k = (case lit ic t s of None \<Rightarrow> None | Some s' \<Rightarrow> k s' c)"
| "rx_m ic (One p) s c k = (case s of [] \<Rightarrow> None | x # xs \<Rightarrow> if p x then k xs c else None)"
| "rx_m ic (Rep g lo hi p) s c k =
     (if g then rep_greedy p lo hi 0 s (\<lambda>s'. k s' c) else rep_lazy p lo hi 0 s (\<lambda>s'. k s' c))"
| "rx_m ic (Cat a b) s c k = rx_m ic a s c (\<lambda>s' c'. rx_m ic b s' c' k)"
| "rx_m ic (Alt a b) s c k =
     (case rx_m ic a s c k of Some r \<Rightarrow> Some r | None \<Rightarrow> rx_m ic b s c k)"
| "rx_m ic (Opt a) s c k =
     (case rx_m ic a s c k of Some r \<Rightarrow> Some r | None \<Rightarrow> k s c)"
| "rx_m ic (Grp i a) s c k =
     rx_m ic a s c (\<lambda>s' c'. k s' ((i, take (length s - length s') s) # c'))"
| "rx_m ic Eos s c k = (if s = [] \<or> s = [CHR 0x0A] then k s c else None)"

text \<open>A match object: where the match starts in the searched string, the text matched
  and the groups.\<close>

record rmatch =
  m_start :: nat
  m_text :: string
  m_groups :: caps

definition m_end :: "rmatch \<Rightarrow> nat" where
  "m_end m = m_start m + length (m_text m)"

text \<open>\<open>m.group(i)\<close> for \<open>i > 0\<close>: \<open>None\<close> when the group took no part in the match.\<close>

definition group :: "rmatch \<Rightarrow> nat \<Rightarrow> string option" where
  "group m i = map_of (m_groups m) i"

text \<open>The pattern matched at the start of \<open>s\<close>: the text matched and the groups.\<close>

definition rx_match :: "bool \<Rightarrow> rx \<Rightarrow> string \<Rightarrow> (string \<times> caps) option" where
  "rx_match ic r s =
     (case rx_m ic r s [] (\<lambda>s' c. Some (s', c)) of
        None \<Rightarrow> None
      | Some (s', c) \<Rightarrow> Some (take (length s - length s') s, c))"

fun rx_search_from :: "bool \<Rightarrow> rx \<Rightarrow> nat \<Rightarrow> string \<Rightarrow> rmatch option" where
  "rx_search_from ic r pos [] =
     (case rx_match ic r [] of
        None \<Rightarrow> None
      | Some (t, c) \<Rightarrow> Some \<lparr>m_start = pos, m_text = t, m_groups = c\<rparr>)"
| "rx_search_from ic r pos (x # xs) =
     (case rx_match ic r (x # xs) of
        None \<Rightarrow> rx_search_from ic r (Suc pos) xs
      | Some (t, c) \<Rightarrow> Some \<lparr>m_start = pos, m_text = t, m_groups = c\<rparr>)"

text \<open>\<open>re.search\<close>: the leftmost match.\<close>

definition re_search :: "bool \<Rightarrow> rx \<Rightarrow> string \<Rightarrow> rmatch option" where
  "re_search ic r s = rx_search_from ic r 0 s"

text \<open>
  \<open>finditer\<close> and \<open>re.sub\<close>: the matches from left to right, each search starting where
  the last match ended; \<open>m_start\<close> counts from there. No pattern of the program matches
  the empty string; after an empty match the scan moves on by one character.
\<close>

function finditer :: "bool \<Rightarrow> rx \<Rightarrow> string \<Rightarrow> rmatch list" where
  "finditer ic r s =
     (case re_search ic r s of
        None \<Rightarrow> []
      | Some m \<Rightarrow> if s = [] then [m] else m # finditer ic r (drop (max 1 (m_end m)) s))"
  by pat_completeness auto
termination
  by (relation "measure (\<lambda>(ic, r, s). length s)") auto

declare finditer.simps [simp del]



text \<open>
  The texts a pattern can match, without regard to the order in which the matcher tries
  them. \<open>$\<close> consumes nothing. A pattern is \<open>groupless\<close> when it captures nothing.
\<close>

fun matches :: "bool \<Rightarrow> rx \<Rightarrow> string \<Rightarrow> bool" where
  "matches ic (Lit t) w = list_all2 (eq_char ic) t w"
| "matches ic (One p) w = (\<exists>x. w = [x] \<and> p x)"
| "matches ic (Rep g lo hi p) w =
     (list_all p w \<and> lo \<le> length w \<and> (case hi of None \<Rightarrow> True | Some m \<Rightarrow> length w \<le> m))"
| "matches ic (Cat a b) w = (\<exists>u v. w = u @ v \<and> matches ic a u \<and> matches ic b v)"
| "matches ic (Alt a b) w = (matches ic a w \<or> matches ic b w)"
| "matches ic (Opt a) w = (w = [] \<or> matches ic a w)"
| "matches ic (Grp i a) w = matches ic a w"
| "matches ic Eos w = (w = [])"

fun groupless :: "rx \<Rightarrow> bool" where
  "groupless (Cat a b) = (groupless a \<and> groupless b)"
| "groupless (Alt a b) = (groupless a \<and> groupless b)"
| "groupless (Opt a) = groupless a"
| "groupless (Grp i a) = False"
| "groupless r = True"

section \<open>The network and the disk\<close>

text \<open>A request is the URL and the header dictionary; a response is the body read and
  \<open>dict(resp.headers)\<close>, or the exception raised by \<open>urlopen\<close> or \<open>resp.read()\<close>.\<close>

record request =
  req_url :: string
  req_headers :: "(string \<times> string) list"

datatype response = Response bytes "(string \<times> string) list" | Raises exn

text \<open>The network is a parameter: its answer to the \<open>k\<close>-th request of the run.\<close>

type_synonym network = "nat \<Rightarrow> request \<Rightarrow> response"

type_synonym path = "string list"

text \<open>What the program prints while downloading: the fields of each line, unformatted.\<close>

datatype line =
    LSkip nat nat string nat
  | LFailed nat nat string exn
  | LNotImage nat nat string "string option"
  | LOk nat nat string

text \<open>The effects of the program, each with what it returned: a request with its
  response, a look at a file (\<open>exists\<close> and \<open>stat\<close>) with the size found.\<close>

datatype event =
    Mkdir path
  | WriteText path string
  | WriteBytes path bytes
  | Stat path "nat option"
  | Urlopen request response
  | Sleep rat
  | Print line

text \<open>The state the program changes: the files on disk and the trace of its effects, in
  the order they happen.\<close>

record world =
  disk :: "path \<Rightarrow> bytes option"
  trace :: "event list"

definition emit :: "event \<Rightarrow> world \<Rightarrow> world" where
  "emit e w = w\<lparr>trace := trace w @ [e]\<rparr>"

fun is_urlopen :: "event \<Rightarrow> bool" where
  "is_urlopen (Urlopen rq a) = True"
| "is_urlopen e = False"

definition n_requests :: "world \<Rightarrow> nat" where
  "n_requests w = length (filter is_urlopen (trace w))"

fun sleeps :: "event list \<Rightarrow> rat list" where
  "sleeps [] = []"
| "sleeps (Sleep d # es) = d # sleeps es"
| "sleeps (e # es) = sleeps es"

definition urlopen :: "network \<Rightarrow> request \<Rightarrow> world \<Rightarrow> response \<times> world" where
  "urlopen net rq w = (net (n_requests w) rq, emit (Urlopen rq (net (n_requests w) rq)) w)"

section \<open>The fetcher: \<open>fetch\<close>\<close>

definition UA :: string where
  "UA = ''Mozilla/5.0 (Macintosh; Intel Mac OS X 14_0) AppleWebKit/537.36 (KHTML, like Gecko) Chrome/127.0.0.0 Safari/537.36''"

definition fetch_headers :: "string option \<Rightarrow> (string \<times> string) list" where
  "fetch_headers referer =
     [(''User-Agent'', UA),
      (''Accept'', ''text/html,application/xhtml+xml,application/xml;q=0.9,image/avif,image/webp,*/*;q=0.8''),
      (''Accept-Language'', ''en-US,en;q=0.9'')]
     @ (case referer of None \<Rightarrow> [] | Some r \<Rightarrow> if r = [] then [] else [(''Referer'', r)])"

text \<open>The classes of \<open>except (HTTPError, URLError, TimeoutError, ssl.SSLError)\<close>.\<close>

fun caught :: "exn \<Rightarrow> bool" where
  "caught (HTTPError c) = True"
| "caught (URLError m) = True"
| "caught TimeoutError = True"
| "caught (SSLError m) = True"
| "caught e = False"

text \<open>The code after the loop.\<close>

definition fetch_end :: "exn option \<Rightarrow> exn" where
  "fetch_end last_exc =
     (case last_exc of Some e \<Rightarrow> e | None \<Rightarrow> RuntimeError ''fetch failed without exception'')"

text \<open>
  The loop \<open>for i in range(1, attempts + 1)\<close>, from iteration \<open>i\<close> on, with the current
  \<open>delay\<close> and \<open>last_exc\<close>. An exception outside the \<open>except\<close> clause leaves the function
  at once. The delays are the exact values of the doubled float \<open>0.5\<close>.
\<close>

function fetch_loop ::
  "network \<Rightarrow> request \<Rightarrow> int \<Rightarrow> int \<Rightarrow> rat \<Rightarrow> exn option \<Rightarrow> world
     \<Rightarrow> (exn + bytes \<times> (string \<times> string) list) \<times> world" where
  "fetch_loop net rq attempts i delay last_exc w =
     (if attempts < i then (Inl (fetch_end last_exc), w)
      else
        (case urlopen net rq w of
           (Response data hdrs, w') \<Rightarrow> (Inr (data, hdrs), w')
         | (Raises e, w') \<Rightarrow>
             if caught e then
               (if attempts \<le> i then (Inl (fetch_end (Some e)), w')
                else fetch_loop net rq attempts (i + 1) (delay * 2) (Some e) (emit (Sleep delay) w'))
             else (Inl e, w')))"
  by pat_completeness auto
termination
  by (relation "measure (\<lambda>(net, rq, attempts, i, delay, last_exc, w). nat (attempts + 1 - i))") auto

declare fetch_loop.simps [simp del]

text \<open>\<open>fetch(url, referer, binary, timeout, attempts, return_info)\<close>. The result carries
  the headers only when \<open>return_info\<close> is set.\<close>

definition fetch ::
  "network \<Rightarrow> string \<Rightarrow> string option \<Rightarrow> int \<Rightarrow> bool \<Rightarrow> world
     \<Rightarrow> (exn + bytes \<times> (string \<times> string) list option) \<times> world" where
  "fetch net url referer attempts return_info w =
     (case fetch_loop net \<lparr>req_url = url, req_headers = fetch_headers referer\<rparr> attempts 1 (1 / 2) None w of
        (Inl e, w') \<Rightarrow> (Inl e, w')
      | (Inr (data, hdrs), w') \<Rightarrow> (Inr (data, if return_info then Some hdrs else None), w'))"

section \<open>The URL normalizer: \<open>normalize_naver_url\<close>\<close>

text \<open>Every exception of the body is caught by \<open>except Exception\<close>, which returns the
  input.\<close>

definition normalize_naver_url :: "string \<Rightarrow> string \<times> bool" where
  "normalize_naver_url u =
     (case urlparse u [] of
        Inl e \<Rightarrow> (u, False)
      | Inr p \<Rightarrow>
          (let host = lower (u_netloc p) in
           if endswith host ''comic.naver.com'' \<and> \<not> startswith host ''m.''
              \<and> contains (u_path p) ''/webtoon/detail''
           then (urlunparse (p\<lparr>u_scheme := (if u_scheme p = [] then ''https'' else u_scheme p),
                               u_netloc := ''m.comic.naver.com''\<rparr>), True)
           else (u, False)))"

section \<open>The image URL extractor: \<open>extract_image_urls\<close>\<close>

definition quote_chars :: string where
  "quote_chars = [CHR 0x27, CHR 0x22]"

text \<open>\<open><img[^>]+(?:data-src|data-original|data-image|src)\s*=\s*['"]([^'"]+)['"][^>]*>\<close>\<close>

definition img_attr_pattern :: rx where
  "img_attr_pattern =
     seq [Lit ''<img'', Rep True 1 None (not_in ''>''),
          alts [Lit ''data-src'', Lit ''data-original'', Lit ''data-image'', Lit ''src''],
          Rep True 0 None uni_space, Lit ''='', Rep True 0 None uni_space,
          One (in_set quote_chars), Grp 1 (Rep True 1 None (not_in quote_chars)),
          One (in_set quote_chars), Rep True 0 None (not_in ''>''), Lit ''>'']"

text \<open>The pattern in three parts after \<open><img[^>]+\<close>: the attribute name up to the
  opening quote, the captured value, and the closing quote up to the end of the tag.\<close>

definition attr_head :: "rx list" where
  "attr_head =
     [alts [Lit ''data-src'', Lit ''data-original'', Lit ''data-image'', Lit ''src''],
      Rep True 0 None uni_space, Lit ''='', Rep True 0 None uni_space, One (in_set quote_chars)]"

definition attr_value :: rx where
  "attr_value = Grp 1 (Rep True 1 None (not_in quote_chars))"

definition attr_tail :: "rx list" where
  "attr_tail = [One (in_set quote_chars), Rep True 0 None (not_in ''>''), Lit ''>'']"

text \<open>\<open>/webtoon/|/episode/|/content/|/image/\<close>\<close>

definition content_path_pattern :: rx where
  "content_path_pattern = alts [Lit ''/webtoon/'', Lit ''/episode/'', Lit ''/content/'', Lit ''/image/'']"

text \<open>\<open>/(\d{2,})/|_p(\d+)|page=(\d+)\<close>\<close>

definition page_index_pattern :: rx where
  "page_index_pattern =
     alts [seq [Lit ''/'', Grp 1 (Rep True 2 None digit), Lit ''/''],
           seq [Lit ''_p'', Grp 2 (Rep True 1 None digit)],
           seq [Lit ''page='', Grp 3 (Rep True 1 None digit)]]"

text \<open>\<open>https?://[^'"\s>]+\.(?:jpg|jpeg|png|webp)(?:\?[^'"\s>]*)?\<close>\<close>

definition url_char :: "char \<Rightarrow> bool" where
  "url_char c = (\<not> (c \<in> set quote_chars \<or> uni_space c \<or> c = CHR ''>''))"

definition bare_url_pattern :: rx where
  "bare_url_pattern =
     seq [Lit ''http'', Opt (Lit ''s''), Lit ''://'', Rep True 1 None url_char, Lit ''.'',
          alts [Lit ''jpg'', Lit ''jpeg'', Lit ''png'', Lit ''webp''],
          Opt (seq [Lit ''?'', Rep True 0 None url_char])]"

text \<open>The inner function \<open>sort_key\<close>: the first group that is set and not empty, as a
  number, else the sentinel.\<close>

fun first_int :: "string option list \<Rightarrow> int" where
  "first_int [] = 1000000"
| "first_int (g # gs) =
     (case g of
        None \<Rightarrow> first_int gs
      | Some t \<Rightarrow>
          if t \<noteq> [] then (case py_int t of Some n \<Rightarrow> n | None \<Rightarrow> first_int gs)
          else first_int gs)"

definition url_sort_key :: "string \<Rightarrow> int" where
  "url_sort_key u =
     (case re_search False page_index_pattern u of
        None \<Rightarrow> 1000000
      | Some m \<Rightarrow> first_int [group m 1, group m 2, group m 3])"

text \<open>
  The first loop, over the matches of \<open>img_attr_pattern\<close>: \<open>urls\<close> and \<open>seen\<close> are the two
  variables of the source. \<open>urljoin\<close> and \<open>urlparse\<close> are called outside any \<open>try\<close>, so
  their \<open>ValueError\<close> ends the function.
\<close>

fun attr_scan ::
  "string \<Rightarrow> rmatch list \<Rightarrow> string list \<times> string set \<Rightarrow> exn + string list \<times> string set" where
  "attr_scan base [] (urls, seen) = Inr (urls, seen)"
| "attr_scan base (m # ms) (urls, seen) =
     (case group m 1 of
        None \<Rightarrow> Inl (OtherError ''AttributeError'')
      | Some u0 \<Rightarrow>
          if startswith u0 ''data:'' then attr_scan base ms (urls, seen)
          else
            (case urljoin base u0 of
               Inl e \<Rightarrow> Inl e
             | Inr u \<Rightarrow>
                (case urlparse u [] of
                   Inl e \<Rightarrow> Inl e
                 | Inr p \<Rightarrow>
                     (let host = u_netloc p in
                      if host = [] then attr_scan base ms (urls, seen)
                      else if \<not> contains host ''pstatic.net'' \<and> \<not> contains host ''comic.naver.net''
                              \<and> \<not> contains host ''naver.net''
                              \<and> re_search False content_path_pattern u = None
                      then attr_scan base ms (urls, seen)
                      else if u \<notin> seen then attr_scan base ms (urls @ [u], insert u seen)
                      else attr_scan base ms (urls, seen)))))"

text \<open>The second loop, over the bare image URLs of the whole document.\<close>

fun bare_scan :: "rmatch list \<Rightarrow> string list \<times> string set \<Rightarrow> exn + string list \<times> string set" where
  "bare_scan [] (urls, seen) = Inr (urls, seen)"
| "bare_scan (m # ms) (urls, seen) =
     (let u = m_text m in
      case urlparse u [] of
        Inl e \<Rightarrow> Inl e
      | Inr p \<Rightarrow>
          (let host = u_netloc p in
           if contains host ''pstatic.net'' \<or> contains host ''comic.naver.net'' \<or> contains host ''naver.net''
           then (if u \<notin> seen then bare_scan ms (urls @ [u], insert u seen)
                 else bare_scan ms (urls, seen))
           else bare_scan ms (urls, seen)))"

text \<open>\<open>list(dict.fromkeys(urls))\<close> keeps the first occurrence of every element, and
  \<open>urls.index(x)\<close> is the position of the first occurrence.\<close>

fun dict_fromkeys :: "'a list \<Rightarrow> 'a list" where
  "dict_fromkeys [] = []"
| "dict_fromkeys (x # xs) = x # filter (\<lambda>y. y \<noteq> x) (dict_fromkeys xs)"

fun index_of :: "'a list \<Rightarrow> 'a \<Rightarrow> nat" where
  "index_of [] x = 0"
| "index_of (y # ys) x = (if y = x then 0 else Suc (index_of ys x))"

text \<open>\<open>sorted\<close> is a stable sort on the key, as \<open>sort_key\<close> of the list library is; the
  keys are pairs in lexicographic order.\<close>

definition final_order :: "string list \<Rightarrow> string list" where
  "final_order urls = sort_key (\<lambda>x. (url_sort_key x, index_of urls x)) (dict_fromkeys urls)"

definition extract_image_urls :: "string \<Rightarrow> string \<Rightarrow> exn + string list" where
  "extract_image_urls html base =
     (case attr_scan base (finditer True img_attr_pattern html) ([], {}) of
        Inl e \<Rightarrow> Inl e
      | Inr st \<Rightarrow>
          (case bare_scan (finditer True bare_url_pattern html) st of
             Inl e \<Rightarrow> Inl e
           | Inr (urls, seen) \<Rightarrow> Inr (final_order urls)))"

section \<open>File names: \<open>infer_ext\<close>\<close>

fun first_ext :: "string \<Rightarrow> string list \<Rightarrow> string \<Rightarrow> string" where
  "first_ext p [] fallback = fallback"
| "first_ext p (ext # exts) fallback = (if endswith p ext then ext else first_ext p exts fallback)"

definition infer_ext :: "string \<Rightarrow> exn + string" where
  "infer_ext url =
     (case urlparse url [] of
        Inl e \<Rightarrow> Inl e
      | Inr p \<Rightarrow> Inr (first_ext (lower (u_path p)) [''.jpg'', ''.jpeg'', ''.png'', ''.webp''] ''.jpg''))"

section \<open>The chapter identity resolver: \<open>slugify\<close> and \<open>parse_chapter_label\<close>\<close>


























section \<open>The download orchestrator: \<open>download_images\<close>\<close>

text \<open>The files of the disk hold bytes; \<open>write_text\<close> encodes its text as UTF-8.\<close>

definition utf8 :: "string \<Rightarrow> bytes" where
  "utf8 s = concat (map (\<lambda>c. if (of_char c :: nat) < 128 then [c]
                             else [char_of (192 + (of_char c :: nat) div 64),
                                   char_of (128 + (of_char c :: nat) mod 64)]) s)"

definition mkdir :: "path \<Rightarrow> world \<Rightarrow> world" where
  "mkdir p w = emit (Mkdir p) w"

definition write_text :: "path \<Rightarrow> string \<Rightarrow> world \<Rightarrow> world" where
  "write_text p t w = emit (WriteText p t) (w\<lparr>disk := (disk w)(p \<mapsto> utf8 t)\<rparr>)"

definition write_bytes :: "path \<Rightarrow> bytes \<Rightarrow> world \<Rightarrow> world" where
  "write_bytes p b w = emit (WriteBytes p b) (w\<lparr>disk := (disk w)(p \<mapsto> b)\<rparr>)"

text \<open>\<open>out.exists()\<close> and, for a file that is there, \<open>out.stat().st_size\<close>.\<close>

definition stat_size :: "path \<Rightarrow> world \<Rightarrow> nat option \<times> world" where
  "stat_size p w =
     (let r = (case disk w p of None \<Rightarrow> None | Some b \<Rightarrow> Some (length b))
      in (r, emit (Stat p r) w))"

record image_meta =
  im_index :: nat
  im_filename :: string
  im_url :: string
  im_size :: nat

definition newline :: string where
  "newline = [CHR 0x0A]"

text \<open>
  The loop \<open>for idx, u in enumerate(urls, 1)\<close>, from position \<open>idx\<close> on; \<open>saved_paths\<close> and
  \<open>metas\<close> are the two lists of the source. \<open>infer_ext\<close> stands outside the \<open>try\<close>, so its
  exception ends the function; every exception of \<open>fetch\<close> is caught and the item is
  skipped.
\<close>

fun download_loop ::
  "network \<Rightarrow> path \<Rightarrow> string \<Rightarrow> bool \<Rightarrow> nat \<Rightarrow> nat \<Rightarrow> nat \<Rightarrow> string list
     \<Rightarrow> path list \<times> image_meta list \<Rightarrow> world
     \<Rightarrow> (exn + path list \<times> image_meta list) \<times> world" where
  "download_loop net dest_dir referer overwrite tot pad idx [] (saved_paths, metas) w =
     (Inr (saved_paths, metas), w)"
| "download_loop net dest_dir referer overwrite tot pad idx (u # us) (saved_paths, metas) w =
     (case infer_ext u of
        Inl e \<Rightarrow> (Inl e, w)
      | Inr ext \<Rightarrow>
          (let name = zero_pad pad idx @ ext;
               out = dest_dir @ [name]
           in case stat_size out w of
                (found, w1) \<Rightarrow>
                  if found \<noteq> None \<and> \<not> overwrite then
                    (let sz = (case found of Some n \<Rightarrow> n | None \<Rightarrow> 0);
                         w2 = emit (Print (LSkip idx tot name sz)) w1
                     in download_loop net dest_dir referer overwrite tot pad (Suc idx) us
                          (saved_paths @ [out],
                           metas @ [\<lparr>im_index = idx, im_filename = name, im_url = u, im_size = sz\<rparr>])
                          w2)
                  else
                    (case fetch net u (Some referer) 3 True w1 of
                       (Inl e, w2) \<Rightarrow>
                         download_loop net dest_dir referer overwrite tot pad (Suc idx) us
                           (saved_paths, metas) (emit (Print (LFailed idx tot u e)) w2)
                     | (Inr (data, info), w2) \<Rightarrow>
                         (let ctype = (case info of
                                         None \<Rightarrow> None
                                       | Some hdrs \<Rightarrow> map_of hdrs ''Content-Type'')
                          in if \<not> is_image_bytes data ctype then
                               download_loop net dest_dir referer overwrite tot pad (Suc idx) us
                                 (saved_paths, metas) (emit (Print (LNotImage idx tot u ctype)) w2)
                             else
                               (let w3 = write_bytes out data w2;
                                    sz = length data;
                                    w4 = emit (Print (LOk idx tot name)) w3;
                                    w5 = emit (Sleep (1 / 20)) w4
                                in download_loop net dest_dir referer overwrite tot pad (Suc idx) us
                                     (saved_paths @ [out],
                                      metas @ [\<lparr>im_index = idx, im_filename = name, im_url = u,
                                                im_size = sz\<rparr>])
                                     w5)))))"

definition download_images ::
  "network \<Rightarrow> string list \<Rightarrow> path \<Rightarrow> string \<Rightarrow> bool \<Rightarrow> path option \<Rightarrow> world
     \<Rightarrow> (exn + path list \<times> image_meta list) \<times> world" where
  "download_images net urls dest_dir referer overwrite meta_dir0 w =
     (let w1 = mkdir dest_dir w;
          meta_dir = (case meta_dir0 of None \<Rightarrow> dest_dir | Some d \<Rightarrow> d);
          w2 = mkdir meta_dir w1;
          tot = length urls;
          pad = max 3 (length (str_nat tot));
          w3 = write_text (meta_dir @ [''.urls.txt'']) (join newline urls @ newline) w2
      in download_loop net dest_dir referer overwrite tot pad 1 urls ([], []) w3)"

text \<open>Why a record is in the list: the file was found and is kept, or the payload of an
  answered request passed the validation and was written.\<close>

definition justified :: "path \<Rightarrow> string \<Rightarrow> bool \<Rightarrow> event list \<Rightarrow> image_meta \<Rightarrow> bool" where
  "justified dest_dir referer overwrite es r =
     ((\<not> overwrite \<and> Stat (dest_dir @ [im_filename r]) (Some (im_size r)) \<in> set es)
      \<or> (\<exists>data hdrs.
            Urlopen \<lparr>req_url = im_url r, req_headers = fetch_headers (Some referer)\<rparr> (Response data hdrs) \<in> set es
          \<and> is_image_bytes data (map_of hdrs ''Content-Type'')
          \<and> WriteBytes (dest_dir @ [im_filename r]) data \<in> set es
          \<and> im_size r = length data))"

section \<open>Example inputs\<close>

text \<open>A network on which the first two requests time out and every later one finds the
  host down.\<close>

definition flaky :: network where
  "flaky k rq = (if k < 2 then Raises TimeoutError else Raises (URLError ''down''))"

definition world0 :: world where
  "world0 = \<lparr>disk = Map.empty, trace = []\<rparr>"

definition desktop_url :: string where
  "desktop_url = ''https://comic.naver.com/webtoon/detail?titleId=1&no=5''"

definition mobile_url :: string where
  "mobile_url = ''https://m.comic.naver.com/webtoon/detail?titleId=1&no=5''"

text \<open>A URL that \<open>urlparse\<close> refuses: the bracket of an IPv6 host is not closed.\<close>

definition broken_url :: string where
  "broken_url = ''http://[::1/webtoon/detail''"

text \<open>Four tags: page 12 before page 3 in the document, a cover with no page number,
  and page 3 once more.\<close>

definition pages_html :: string where
  "pages_html = ''<img data-src='https://image-comic.pstatic.net/x_p12.jpg'><img data-src='https://image-comic.pstatic.net/x_p3.jpg'><img data-src='https://image-comic.pstatic.net/cover.jpg'><img data-src='https://image-comic.pstatic.net/x_p3.jpg'>''"








text \<open>A run of the download: three candidates; the first is served as a JPEG, every
  request for the others times out, and the file of the third is on disk already.\<close>

definition demo_urls :: "string list" where
  "demo_urls = [''https://image-comic.pstatic.net/a_p1.jpg'',
                ''https://image-comic.pstatic.net/a_p2.jpg'',
                ''https://image-comic.pstatic.net/a_p3.png'']"

definition demo_net :: network where
  "demo_net k rq =
     (if req_url rq = ''https://image-comic.pstatic.net/a_p1.jpg''
      then Response (jpeg_magic @ ''JFIF'') [(''Content-Type'', ''image/jpeg'')]
      else Raises TimeoutError)"

definition demo_dest :: path where
  "demo_dest = [''samples_in'', ''naver_1_5'']"

definition demo_meta_dir :: path where
  "demo_meta_dir = [''aggregated'', ''naver_1_5'']"

definition world1 :: world where
  "world1 = \<lparr>disk = [demo_dest @ [''003.png''] \<mapsto> ''old''], trace = []\<rparr>"

section \<open>Payload validation\<close>

lemma startswith_append: "startswith s p \<longleftrightarrow> (\<exists>r. s = p @ r)"
  unfolding startswith_def
  by (metis append_eq_conv_conj append_take_drop_id)

text \<open>
  Claim C1, as stated: a payload that starts with the JPEG magic bytes is accepted when no
  content type is declared, and a payload that starts with \<open><html\<close> is rejected even when
  the declared content type is \<open>image/jpeg\<close>. The second half fails: the declared
  content type is tested first and decides alone.
\<close>

theorem is_image_bytes_html_declared_jpeg:
  "is_image_bytes ''<html><body>Not Found</body></html>'' (Some ''image/jpeg'')"
  by (simp add: is_image_bytes_def startswith_def lower_def lower_char_def)

text \<open>
  Claim C1, amended: a payload that starts with the JPEG magic bytes is accepted when no
  content type is declared; a payload that starts with \<open><html\<close> is accepted exactly when
  a content type is declared that starts, in any letter case, with \<open>image/\<close>, and is
  rejected otherwise.
\<close>

theorem is_image_bytes_jpeg_and_html:
  "(startswith data jpeg_magic \<longrightarrow> is_image_bytes data None) \<and>
   (startswith data ''<html'' \<longrightarrow>
      (is_image_bytes data ctype \<longleftrightarrow> (\<exists>c. ctype = Some c \<and> startswith (lower c) ''image/'')))"
proof (intro conjI impI)
  assume "startswith data jpeg_magic"
  then show "is_image_bytes data None"
    by (auto simp: is_image_bytes_def startswith_append jpeg_magic_def Let_def
        bytes_lstrip_def bytes_space_def)
next
  assume h: "startswith data ''<html''"
  show "is_image_bytes data ctype \<longleftrightarrow> (\<exists>c. ctype = Some c \<and> startswith (lower c) ''image/'')"
  proof (cases ctype)
    case None
    with h show ?thesis
      by (auto simp: is_image_bytes_def startswith_append jpeg_magic_def png_magic_def Let_def)
  next
    case (Some c)
    have "c = [] \<Longrightarrow> \<not> startswith (lower c) ''image/''"
      by (simp add: startswith_def lower_def)
    with h Some show ?thesis
      by (auto simp: is_image_bytes_def startswith_append jpeg_magic_def png_magic_def Let_def)
  qed
qed

theorem is_image_bytes_jpeg_and_html_witness:
  "is_image_bytes (jpeg_magic @ [CHR 0xE0, CHR 0x00, CHR 0x10] @ ''JFIF'') None \<and>
   \<not> is_image_bytes ''<html><body>Not Found</body></html>'' (Some ''text/html'') \<and>
   \<not> is_image_bytes ''<html><body>Not Found</body></html>'' None"
proof -
  have j: "startswith (jpeg_magic @ [CHR 0xE0, CHR 0x00, CHR 0x10] @ ''JFIF'') jpeg_magic"
    by (simp add: startswith_def)
  have h: "startswith ''<html><body>Not Found</body></html>'' ''<html''"
    by (simp add: startswith_def)
  have t: "\<not> startswith (lower ''text/html'') ''image/''"
    by (simp add: startswith_def lower_def lower_char_def)
  from j h t
    is_image_bytes_jpeg_and_html[of "jpeg_magic @ [CHR 0xE0, CHR 0x00, CHR 0x10] @ ''JFIF''" None]
    is_image_bytes_jpeg_and_html[of "''<html><body>Not Found</body></html>''" "Some ''text/html''"]
    is_image_bytes_jpeg_and_html[of "''<html><body>Not Found</body></html>''" None]
  show ?thesis by simp
qed

section \<open>Facts about the matcher\<close>








lemma rep_greedy_bounded:
  "rep_greedy p lo hi n s k = Some r \<Longrightarrow>
     \<exists>j\<le>length s. (\<forall>c\<in>set (take j s). p c) \<and> lo \<le> n + j
        \<and> (\<forall>m. hi = Some m \<longrightarrow> n + j \<le> max m n) \<and> k (drop j s) = Some r"
proof (induction s arbitrary: n)
  case Nil
  then show ?case by (auto split: if_splits)
next
  case (Cons x xs)
  show ?case
  proof (cases "p x \<and> under hi n \<and> rep_greedy p lo hi (Suc n) xs k \<noteq> None")
    case True
    with Cons.prems have "rep_greedy p lo hi (Suc n) xs k = Some r"
      by (auto split: option.splits)
    from Cons.IH[OF this] obtain j where
      j: "j \<le> length xs" "\<forall>c\<in>set (take j xs). p c" "lo \<le> Suc n + j"
         "\<forall>m. hi = Some m \<longrightarrow> Suc n + j \<le> max m (Suc n)" "k (drop j xs) = Some r"
      by blast
    have "\<forall>m. hi = Some m \<longrightarrow> n + Suc j \<le> max m n"
      using j(4) True by (auto simp: under_def)
    with j True show ?thesis
      by (intro exI[of _ "Suc j"]) auto
  next
    case False
    with Cons.prems have "lo \<le> n" "k (x # xs) = Some r"
      by (auto split: option.splits if_splits)
    then show ?thesis
      by (intro exI[of _ 0]) auto
  qed
qed

lemma rep_lazy_bounded:
  "rep_lazy p lo hi n s k = Some r \<Longrightarrow>
     \<exists>j\<le>length s. (\<forall>c\<in>set (take j s). p c) \<and> lo \<le> n + j
        \<and> (\<forall>m. hi = Some m \<longrightarrow> n + j \<le> max m n) \<and> k (drop j s) = Some r"
proof (induction s arbitrary: n)
  case Nil
  then show ?case by (auto split: if_splits)
next
  case (Cons x xs)
  show ?case
  proof (cases "lo \<le> n \<and> k (x # xs) \<noteq> None")
    case True
    with Cons.prems have "k (x # xs) = Some r" by (auto split: option.splits)
    with True show ?thesis by (intro exI[of _ 0]) auto
  next
    case False
    then have "(if lo \<le> n then k (x # xs) else None) = None"
      by (cases "k (x # xs)") simp_all
    with Cons.prems have px: "p x" "under hi n" and rec: "rep_lazy p lo hi (Suc n) xs k = Some r"
      by (simp_all split: if_splits)
    from Cons.IH[OF rec] obtain j where
      j: "j \<le> length xs" "\<forall>c\<in>set (take j xs). p c" "lo \<le> Suc n + j"
         "\<forall>m. hi = Some m \<longrightarrow> Suc n + j \<le> max m (Suc n)" "k (drop j xs) = Some r"
      by blast
    have "\<forall>m. hi = Some m \<longrightarrow> n + Suc j \<le> max m n"
      using j(4) px by (auto simp: under_def)
    with j px show ?thesis
      by (intro exI[of _ "Suc j"]) auto
  qed
qed

lemma lit_sound: "lit ic t s = Some s' \<Longrightarrow> \<exists>w. s = w @ s' \<and> list_all2 (eq_char ic) t w"
proof (induction ic t s rule: lit.induct)
  case (1 ic s)
  then show ?case by simp
next
  case (2 ic c cs)
  then show ?case by simp
next
  case (3 ic c cs x xs)
  then have e: "eq_char ic c x" and "lit ic cs xs = Some s'" by (auto split: if_splits)
  with 3 obtain w where "xs = w @ s'" "list_all2 (eq_char ic) cs w" by auto
  with e show ?case by (intro exI[of _ "x # w"]) simp
qed

text \<open>Soundness of the matcher: a success consumed a text of the pattern and then the
  rest of the pattern succeeded; a pattern with no group hands the groups on unchanged.\<close>

lemma rx_m_sound:
  "rx_m ic r s c k = Some res \<Longrightarrow>
     \<exists>w s' c'. s = w @ s' \<and> matches ic r w \<and> k s' c' = Some res \<and> (groupless r \<longrightarrow> c' = c)"
proof (induction r arbitrary: s c k res)
  case (Lit t)
  then obtain s' where l: "lit ic t s = Some s'" and k: "k s' c = Some res"
    by (auto split: option.splits)
  from lit_sound[OF l] k show ?case by auto
next
  case (One p)
  then obtain x xs where "s = x # xs" "p x" "k xs c = Some res"
    by (auto split: list.splits if_splits)
  then show ?case by (intro exI[of _ "[x]"] exI[of _ xs] exI[of _ c]) simp
next
  case (Rep g lo hi p)
  then have "rep_greedy p lo hi 0 s (\<lambda>s'. k s' c) = Some res \<or> rep_lazy p lo hi 0 s (\<lambda>s'. k s' c) = Some res"
    by (auto split: if_splits)
  then obtain j where j: "j \<le> length s" "\<forall>x\<in>set (take j s). p x" "lo \<le> 0 + j"
    "\<forall>m. hi = Some m \<longrightarrow> 0 + j \<le> max m 0" "k (drop j s) c = Some res"
    using rep_greedy_bounded[of p lo hi 0 s "\<lambda>s'. k s' c" res]
      rep_lazy_bounded[of p lo hi 0 s "\<lambda>s'. k s' c" res] by blast
  have "matches ic (Rep g lo hi p) (take j s)"
    using j by (auto simp: list_all_iff split: option.splits)
  with j(5) show ?case
    by (intro exI[of _ "take j s"] exI[of _ "drop j s"] exI[of _ c]) simp
next
  case (Cat a b)
  then have "rx_m ic a s c (\<lambda>s' c'. rx_m ic b s' c' k) = Some res" by simp
  from Cat.IH(1)[OF this] obtain u s1 c1 where
    a: "s = u @ s1" "matches ic a u" "rx_m ic b s1 c1 k = Some res" "groupless a \<longrightarrow> c1 = c"
    by blast
  from Cat.IH(2)[OF a(3)] obtain v s2 c2 where
    b: "s1 = v @ s2" "matches ic b v" "k s2 c2 = Some res" "groupless b \<longrightarrow> c2 = c1"
    by blast
  from a b show ?case
    by (intro exI[of _ "u @ v"] exI[of _ s2] exI[of _ c2]) auto
next
  case (Alt a b)
  show ?case
  proof (cases "rx_m ic a s c k")
    case None
    with Alt.prems have "rx_m ic b s c k = Some res" by simp
    from Alt.IH(2)[OF this] show ?thesis by auto
  next
    case (Some r)
    with Alt.prems have "rx_m ic a s c k = Some res" by simp
    from Alt.IH(1)[OF this] show ?thesis by auto
  qed
next
  case (Opt a)
  show ?case
  proof (cases "rx_m ic a s c k")
    case None
    with Opt.prems have "k s c = Some res" by simp
    then show ?thesis by (intro exI[of _ "[]"] exI[of _ s] exI[of _ c]) simp
  next
    case (Some r)
    with Opt.prems have "rx_m ic a s c k = Some res" by simp
    from Opt.IH[OF this] show ?thesis by auto
  qed
next
  case (Grp i a)
  then have "rx_m ic a s c (\<lambda>s' c'. k s' ((i, take (length s - length s') s) # c')) = Some res"
    by simp
  from Grp.IH[OF this] show ?case by auto
next
  case Eos
  then have "k s c = Some res" by (auto split: if_splits)
  then show ?case by (intro exI[of _ "[]"] exI[of _ s] exI[of _ c]) simp
qed

lemma rep_greedy_not_None:
  "lo \<le> n \<Longrightarrow> k s = Some r0 \<Longrightarrow> rep_greedy p lo hi n s k \<noteq> None"
  by (cases s) (auto split: option.splits)

text \<open>A greedy repetition over a run of its class gives the text back from the end of
  the run, one character at a time.\<close>

lemma rep_greedy_run:
  assumes "rep_greedy p lo None n (t @ ys) k = Some r" "\<forall>c\<in>set t. p c" "ys = [] \<or> \<not> p (hd ys)"
  shows "\<exists>h t'. t = h @ t' \<and> lo \<le> n + length h \<and> k (t' @ ys) = Some r"
  using assms
proof (induction t arbitrary: n)
  case Nil
  then have "lo \<le> n \<and> k ys = Some r"
    by (cases ys) (auto split: if_splits option.splits simp: under_def)
  then show ?case by simp
next
  case (Cons x xs)
  show ?case
  proof (cases "rep_greedy p lo None (Suc n) (xs @ ys) k")
    case None
    with Cons.prems have "lo \<le> n" "k (x # xs @ ys) = Some r"
      by (auto simp: under_def split: if_splits)
    then show ?thesis by (intro exI[of _ "[]"] exI[of _ "x # xs"]) simp
  next
    case (Some r')
    with Cons.prems have "rep_greedy p lo None (Suc n) (xs @ ys) k = Some r"
      by (auto simp: under_def)
    from Cons.IH[OF this] Cons.prems obtain h t' where
      "xs = h @ t'" "lo \<le> Suc n + length h" "k (t' @ ys) = Some r" by auto
    then show ?thesis by (intro exI[of _ "x # h"] exI[of _ t']) simp
  qed
qed

text \<open>The repetition \<open>[^>]+\<close> in front of the attribute: when the rest of the pattern
  succeeds at \<open>t\<close> and every success further right gives a result with \<open>Q\<close>, the match
  gives a result with \<open>Q\<close>.\<close>

lemma rep_greedy_first:
  assumes "\<forall>c\<in>set (pre @ t). p c" "ys = [] \<or> \<not> p (hd ys)" "lo \<le> n + length pre"
    "k (t @ ys) = Some r0" "Q r0"
    "\<forall>h t' r. t = h @ t' \<and> h \<noteq> [] \<and> k (t' @ ys) = Some r \<longrightarrow> Q r"
  shows "\<exists>r. rep_greedy p lo None n (pre @ t @ ys) k = Some r \<and> Q r"
  using assms(1,3)
proof (induction pre arbitrary: n)
  case Nil
  then have lo: "lo \<le> n" and pt: "\<forall>c\<in>set t. p c" by simp_all
  from rep_greedy_not_None[of lo n k "t @ ys" r0 p None] lo assms(4) obtain r where
    r: "rep_greedy p lo None n (t @ ys) k = Some r" by auto
  from rep_greedy_run[OF r pt assms(2)] obtain h t' where
    ht: "t = h @ t'" "k (t' @ ys) = Some r" by blast
  have "Q r"
  proof (cases "h = []")
    case True
    with ht assms(4,5) show ?thesis by simp
  next
    case False
    with ht assms(6) show ?thesis by blast
  qed
  with r show ?case by simp
next
  case (Cons x pre)
  then have "\<forall>c\<in>set (pre @ t). p c" "lo \<le> Suc n + length pre" "p x" by simp_all
  from Cons.IH[OF this(1,2)] obtain r where
    "rep_greedy p lo None (Suc n) (pre @ t @ ys) k = Some r" "Q r" by blast
  with \<open>p x\<close> show ?case by (simp add: under_def)
qed

lemma rep_greedy_longest_success:
  assumes "\<forall>c\<in>set xs. p c" "ys = [] \<or> \<not> p (hd ys)" "lo \<le> n + length xs" "k ys = Some r"
  shows "rep_greedy p lo None n (xs @ ys) k = Some r"
  using assms(1,3)
proof (induction xs arbitrary: n)
  case Nil
  with assms(2,4) show ?case by (cases ys) (auto simp: under_def)
next
  case (Cons x xs)
  then have "rep_greedy p lo None (Suc n) (xs @ ys) k = Some r" by simp
  with Cons.prems show ?case by (simp add: under_def)
qed

text \<open>A text is cut in one way only at its first character outside a class.\<close>

lemma first_outside_unique:
  assumes "a @ x # r1 = b @ y # r2" "\<forall>c\<in>set a. P c" "\<not> P x" "\<forall>c\<in>set b. P c" "\<not> P y"
  shows "a = b \<and> x = y \<and> r1 = r2"
  using assms
proof (induction a arbitrary: b)
  case Nil
  then show ?case by (cases b) auto
next
  case (Cons c a)
  show ?case
  proof (cases b)
    case Nil
    with Cons.prems show ?thesis by auto
  next
    case (Cons d b')
    with Cons.prems Cons.IH[of b'] show ?thesis by auto
  qed
qed

lemma rx_m_seq_Cons:
  "rx_m ic (seq (r # rs)) s c k = rx_m ic r s c (\<lambda>s' c'. rx_m ic (seq rs) s' c' k)"
  by (cases rs) simp_all

lemma rx_m_seq_append:
  "rx_m ic (seq (xs @ ys)) s c k = rx_m ic (seq xs) s c (\<lambda>s' c'. rx_m ic (seq ys) s' c' k)"
proof (induction xs arbitrary: s c k)
  case Nil
  then show ?case by simp
next
  case (Cons x xs)
  have "rx_m ic (seq ((x # xs) @ ys)) s c k
      = rx_m ic x s c (\<lambda>s' c'. rx_m ic (seq (xs @ ys)) s' c' k)"
    using rx_m_seq_Cons[of ic x "xs @ ys"] by simp
  also have "\<dots> = rx_m ic x s c (\<lambda>s' c'. rx_m ic (seq xs) s' c' (\<lambda>s'' c''. rx_m ic (seq ys) s'' c'' k))"
    by (simp only: Cons.IH)
  also have "\<dots> = rx_m ic (seq (x # xs)) s c (\<lambda>s' c'. rx_m ic (seq ys) s' c' k)"
    by (simp only: rx_m_seq_Cons)
  finally show ?case .
qed

section \<open>The fetcher\<close>

lemma n_requests_emit [simp]:
  "n_requests (emit e w) = n_requests w + (if is_urlopen e then 1 else 0)"
  by (simp add: n_requests_def emit_def)

lemma trace_emit [simp]: "trace (emit e w) = trace w @ [e]"
  by (simp add: emit_def)

lemma disk_emit [simp]: "disk (emit e w) = disk w"
  by (simp add: emit_def)

lemma sleeps_append [simp]: "sleeps (xs @ ys) = sleeps xs @ sleeps ys"
  by (induction xs rule: sleeps.induct) auto

lemma urlopen_simps [simp]:
  "fst (urlopen net rq w) = net (n_requests w) rq"
  "snd (urlopen net rq w) = emit (Urlopen rq (net (n_requests w) rq)) w"
  by (simp_all add: urlopen_def)

text \<open>What one run of the loop does, whatever the network answers.\<close>

lemma fetch_loop_run:
  assumes "fetch_loop net rq attempts i delay last_exc w = (res, w')"
  shows "\<exists>m. n_requests w' = n_requests w + m \<and> int m \<le> max 0 (attempts + 1 - i)
           \<and> sleeps (trace w') = sleeps (trace w) @ map (\<lambda>k. delay * 2 ^ k) [0..<m - 1]
           \<and> disk w' = disk w
           \<and> (\<forall>d h. res = Inr (d, h) \<longrightarrow> 0 < m \<and> net (n_requests w + m - 1) rq = Response d h)
           \<and> (\<forall>k<m - 1. \<exists>e. net (n_requests w + k) rq = Raises e \<and> caught e)
           \<and> (m = 0 \<longrightarrow> attempts < i \<and> res = Inl (fetch_end last_exc))
           \<and> (\<forall>e. res = Inl e \<and> 0 < m \<longrightarrow> net (n_requests w + m - 1) rq = Raises e)
           \<and> (\<forall>e. 0 < m \<and> int m < attempts + 1 - i \<and> net (n_requests w + m - 1) rq = Raises e \<longrightarrow> \<not> caught e)"
  using assms
proof (induction net rq attempts i delay last_exc w arbitrary: res w' rule: fetch_loop.induct)
  case (1 net rq attempts i delay last_exc w)
  show ?case
  proof (cases "attempts < i")
    case True
    with "1.prems" show ?thesis
      by (intro exI[of _ 0]) (auto simp add: fetch_loop.simps)
  next
    case False
    note ni = this
    show ?thesis
    proof (cases "net (n_requests w) rq")
      case (Response d h)
      with ni "1.prems" show ?thesis
        by (intro exI[of _ 1]) (auto simp add: fetch_loop.simps urlopen_def)
    next
      case (Raises e)
      show ?thesis
      proof (cases "caught e \<and> i < attempts")
        case False
        with ni Raises "1.prems" show ?thesis
          by (intro exI[of _ 1]) (auto simp add: fetch_loop.simps urlopen_def fetch_end_def split: if_splits)
      next
        case True
        let ?w1 = "emit (Sleep delay) (emit (Urlopen rq (Raises e)) w)"
        have "fetch_loop net rq attempts i delay last_exc w
            = fetch_loop net rq attempts (i + 1) (delay * 2) (Some e) ?w1"
          using True ni Raises by (subst fetch_loop.simps) (simp add: urlopen_def)
        with "1.prems"
        have run: "fetch_loop net rq attempts (i + 1) (delay * 2) (Some e) ?w1 = (res, w')"
          by simp
        have "urlopen net rq w = (Raises e, emit (Urlopen rq (Raises e)) w)"
          using Raises by (simp add: urlopen_def)
        from "1.IH"[OF ni this[symmetric] refl _ _ run] True
        obtain m where m: "n_requests w' = n_requests ?w1 + m"
          "int m \<le> max 0 (attempts + 1 - (i + 1))"
          "sleeps (trace w') = sleeps (trace ?w1) @ map (\<lambda>k. delay * 2 * 2 ^ k) [0..<m - 1]"
          "disk w' = disk ?w1"
          "\<forall>d h. res = Inr (d, h) \<longrightarrow> 0 < m \<and> net (n_requests ?w1 + m - 1) rq = Response d h"
          "\<forall>k<m - 1. \<exists>e. net (n_requests ?w1 + k) rq = Raises e \<and> caught e"
          "m = 0 \<longrightarrow> attempts < i + 1 \<and> res = Inl (fetch_end (Some e))"
          "\<forall>e. res = Inl e \<and> 0 < m \<longrightarrow> net (n_requests ?w1 + m - 1) rq = Raises e"
          "\<forall>e. 0 < m \<and> int m < attempts + 1 - (i + 1) \<and> net (n_requests ?w1 + m - 1) rq = Raises e \<longrightarrow> \<not> caught e"
          by auto
        from m(7) True have mpos: "0 < m" by auto
        have sl: "map (\<lambda>k. delay * 2 ^ k) [0..<Suc m - 1] = delay # map (\<lambda>k. delay * 2 * 2 ^ k) [0..<m - 1]"
        proof -
          have "[0..<m] = 0 # map Suc [0..<m - 1]"
            using mpos by (metis Suc_pred' map_Suc_upt upt_conv_Cons)
          then show ?thesis by (simp add: comp_def)
        qed
        have prev: "\<forall>k<Suc m - 1. \<exists>e. net (n_requests w + k) rq = Raises e \<and> caught e"
        proof (intro allI impI)
          fix k assume k: "k < Suc m - 1"
          show "\<exists>e. net (n_requests w + k) rq = Raises e \<and> caught e"
          proof (cases k)
            case 0
            with Raises True show ?thesis by simp
          next
            case (Suc j)
            with k have "j < m - 1" by simp
            with m(6) obtain e' where "net (n_requests ?w1 + j) rq = Raises e'" "caught e'" by blast
            with Suc show ?thesis by simp
          qed
        qed
        show ?thesis
          apply (intro exI[of _ "Suc m"] conjI)
          subgoal using m(1) by simp
          subgoal using m(2) True by simp
          subgoal using m(3) sl by simp
          subgoal using m(4) by simp
          subgoal using m(5) by simp
          subgoal using prev .
          subgoal by simp
          subgoal using m(8) mpos by simp
          subgoal using m(9) mpos by simp
          done
      qed
    qed
  qed
qed

lemma fetch_loop_trace:
  assumes "fetch_loop net rq attempts i delay last_exc w = (res, w')"
  shows "\<exists>es. trace w' = trace w @ es
           \<and> (\<forall>d h. res = Inr (d, h) \<longrightarrow> Urlopen rq (Response d h) \<in> set es)"
  using assms
proof (induction net rq attempts i delay last_exc w arbitrary: res w' rule: fetch_loop.induct)
  case (1 net rq attempts i delay last_exc w)
  show ?case
  proof (cases "attempts < i")
    case True
    with "1.prems" show ?thesis by (auto simp: fetch_loop.simps)
  next
    case False
    note ni = this
    show ?thesis
    proof (cases "net (n_requests w) rq")
      case (Response d h)
      with ni "1.prems" show ?thesis
        by (auto simp: fetch_loop.simps urlopen_def)
    next
      case (Raises e)
      show ?thesis
      proof (cases "caught e \<and> i < attempts")
        case False
        with ni Raises "1.prems" show ?thesis
          by (auto simp: fetch_loop.simps urlopen_def split: if_splits)
      next
        case True
        let ?w1 = "emit (Sleep delay) (emit (Urlopen rq (Raises e)) w)"
        have "fetch_loop net rq attempts i delay last_exc w
            = fetch_loop net rq attempts (i + 1) (delay * 2) (Some e) ?w1"
          using True ni Raises by (subst fetch_loop.simps) (simp add: urlopen_def)
        with "1.prems"
        have run: "fetch_loop net rq attempts (i + 1) (delay * 2) (Some e) ?w1 = (res, w')"
          by simp
        have "urlopen net rq w = (Raises e, emit (Urlopen rq (Raises e)) w)"
          using Raises by (simp add: urlopen_def)
        from "1.IH"[OF ni this[symmetric] refl _ _ run] True
        obtain es where "trace w' = trace ?w1 @ es"
          "\<forall>d h. res = Inr (d, h) \<longrightarrow> Urlopen rq (Response d h) \<in> set es"
          by auto
        then show ?thesis
          by (intro exI[of _ "[Urlopen rq (Raises e), Sleep delay] @ es"]) simp
      qed
    qed
  qed
qed

lemma fetch_trace:
  assumes "fetch net u referer attempts True w = (res, w')"
  shows "\<exists>es. trace w' = trace w @ es
           \<and> (\<forall>d i. res = Inr (d, i) \<longrightarrow>
                 (\<exists>h. i = Some h
                    \<and> Urlopen \<lparr>req_url = u, req_headers = fetch_headers referer\<rparr> (Response d h) \<in> set es))"
proof -
  let ?rq = "\<lparr>req_url = u, req_headers = fetch_headers referer\<rparr>"
  obtain r where loop: "fetch_loop net ?rq attempts 1 (1 / 2) None w = (r, w')"
    and res: "res = (case r of Inl e \<Rightarrow> Inl e | Inr (d, h) \<Rightarrow> Inr (d, Some h))"
    using assms by (auto simp: fetch_def split: prod.splits sum.splits)
  from fetch_loop_trace[OF loop] obtain es where
    es: "trace w' = trace w @ es" "\<forall>d h. r = Inr (d, h) \<longrightarrow> Urlopen ?rq (Response d h) \<in> set es"
    by blast
  have "\<forall>d i. res = Inr (d, i) \<longrightarrow> (\<exists>h. i = Some h \<and> Urlopen ?rq (Response d h) \<in> set es)"
    using es(2) res by (auto split: sum.splits prod.splits)
  with es(1) show ?thesis by blast
qed

text \<open>
  Claim C7: on a failure of one of the caught classes the fetcher tries again, at most
  \<open>attempts\<close> times in all; before the \<open>k\<close>-th retry it sleeps the base delay of half a
  second doubled \<open>k - 1\<close> times; and when the attempts are used up the exception of the
  last attempt is raised. A value is returned only when a request was answered, and it
  is the body of that answer: no empty result stands in for a failure.

  Here \<open>m\<close> is the number of requests the call made. Every request but the last failed
  with a caught exception; the call slept \<open>m - 1\<close> times, for \<open>1/2, 1, 2, ...\<close> seconds;
  a returned body is the answer to the last request; a raised exception is the one of
  the last request, and when it is of a caught class all \<open>attempts\<close> were made.
\<close>

theorem fetch_retries_with_backoff:
  assumes run: "fetch net url referer attempts return_info w = (res, w')"
  shows "let rq = \<lparr>req_url = url, req_headers = fetch_headers referer\<rparr>;
             n0 = n_requests w; m = n_requests w' - n0 in
           n_requests w' = n0 + m \<and> int m \<le> max 0 attempts
         \<and> (\<forall>k<m - 1. \<exists>e. net (n0 + k) rq = Raises e \<and> caught e)
         \<and> sleeps (trace w') = sleeps (trace w) @ map (\<lambda>k. (1 / 2) * 2 ^ k) [0..<m - 1]
         \<and> (\<forall>d i. res = Inr (d, i) \<longrightarrow>
               0 < m \<and> (\<exists>h. net (n0 + m - 1) rq = Response d h \<and> i = (if return_info then Some h else None)))
         \<and> (\<forall>e. res = Inl e \<longrightarrow>
               (if m = 0 then attempts < 1 \<and> e = RuntimeError ''fetch failed without exception''
                else net (n0 + m - 1) rq = Raises e \<and> (caught e \<longrightarrow> int m = attempts)))"
proof -
  let ?rq = "\<lparr>req_url = url, req_headers = fetch_headers referer\<rparr>"
  obtain r where loop: "fetch_loop net ?rq attempts 1 (1 / 2) None w = (r, w')"
    and res: "res = (case r of Inl e \<Rightarrow> Inl e | Inr (d, h) \<Rightarrow> Inr (d, if return_info then Some h else None))"
    using run by (auto simp: fetch_def split: prod.splits sum.splits)
  from fetch_loop_run[OF loop] obtain m where m:
    "n_requests w' = n_requests w + m" "int m \<le> max 0 (attempts + 1 - 1)"
    "sleeps (trace w') = sleeps (trace w) @ map (\<lambda>k. (1 / 2) * 2 ^ k) [0..<m - 1]"
    "\<forall>d h. r = Inr (d, h) \<longrightarrow> 0 < m \<and> net (n_requests w + m - 1) ?rq = Response d h"
    "\<forall>k<m - 1. \<exists>e. net (n_requests w + k) ?rq = Raises e \<and> caught e"
    "m = 0 \<longrightarrow> attempts < 1 \<and> r = Inl (fetch_end None)"
    "\<forall>e. r = Inl e \<and> 0 < m \<longrightarrow> net (n_requests w + m - 1) ?rq = Raises e"
    "\<forall>e. 0 < m \<and> int m < attempts + 1 - 1 \<and> net (n_requests w + m - 1) ?rq = Raises e \<longrightarrow> \<not> caught e"
    by blast
  have meq: "n_requests w' - n_requests w = m" using m(1) by simp
  have a: "\<forall>d i. res = Inr (d, i) \<longrightarrow>
               0 < m \<and> (\<exists>h. net (n_requests w + m - 1) ?rq = Response d h \<and> i = (if return_info then Some h else None))"
    using m(4) res by (auto split: sum.splits prod.splits)
  have b: "\<forall>e. res = Inl e \<longrightarrow>
               (if m = 0 then attempts < 1 \<and> e = RuntimeError ''fetch failed without exception''
                else net (n_requests w + m - 1) ?rq = Raises e \<and> (caught e \<longrightarrow> int m = attempts))"
  proof (intro allI impI)
    fix e assume "res = Inl e"
    then have r: "r = Inl e" using res by (auto split: sum.splits prod.splits)
    show "if m = 0 then attempts < 1 \<and> e = RuntimeError ''fetch failed without exception''
                else net (n_requests w + m - 1) ?rq = Raises e \<and> (caught e \<longrightarrow> int m = attempts)"
    proof (cases "m = 0")
      case True
      with m(6) r show ?thesis by (simp add: fetch_end_def)
    next
      case False
      with m(7) r have last: "net (n_requests w + m - 1) ?rq = Raises e" by simp
      have "caught e \<longrightarrow> int m = attempts"
        using m(8) m(2) last False by force
      with last False show ?thesis by simp
    qed
  qed
  show ?thesis
    unfolding Let_def meq
    using m(1,2,3,5) a b by simp
qed

theorem fetch_retries_with_backoff_witness:
  "fst (fetch flaky ''http://h/a.jpg'' None 3 True world0) = Inl (URLError ''down'')
   \<and> sleeps (trace (snd (fetch flaky ''http://h/a.jpg'' None 3 True world0))) = [1 / 2, 1]
   \<and> n_requests (snd (fetch flaky ''http://h/a.jpg'' None 3 True world0)) = 3"
proof -
  obtain res w' where run: "fetch flaky ''http://h/a.jpg'' None 3 True world0 = (res, w')"
    by (cases "fetch flaky ''http://h/a.jpg'' None 3 True world0")
  have r: "res = Inl (URLError ''down'')"
    using run
    by (simp add: fetch_def fetch_loop.simps urlopen_def n_requests_def emit_def flaky_def
        fetch_end_def world0_def split: prod.splits)
  have n: "n_requests w' = 3"
    using run
    by (auto simp add: fetch_def fetch_loop.simps urlopen_def n_requests_def emit_def flaky_def
        fetch_end_def world0_def split: prod.splits)
  have "[0..<2] = [0, Suc 0]" by (simp add: upt_rec)
  with fetch_retries_with_backoff[OF run] n r
  have "sleeps (trace w') = [1 / 2, 1]"
    by (simp add: Let_def n_requests_def world0_def)
  with run r n show ?thesis by simp
qed

section \<open>The URL normalizer\<close>

lemma normalize_desktop_url: "normalize_naver_url desktop_url = (mobile_url, True)"
  by code_simp

lemma normalize_mobile_url: "normalize_naver_url mobile_url = (mobile_url, False)"
  by code_simp

lemma urlparse_broken_url: "urlparse broken_url [] = Inl (ValueError ''Invalid IPv6 URL'')"
  by code_simp

text \<open>
  Claim C6: the desktop URL of the example is rewritten to the host \<open>m.comic.naver.com\<close>
  with path and query kept and the flag set; the mobile URL comes back unchanged with
  the flag cleared; and for every input \<open>u\<close>, when \<open>urlparse\<close> raises or the parsed URL
  does not match the desktop pattern the result is \<open>(u, False)\<close>. The function returns a
  pair on every input: the exception of \<open>urlparse\<close> is a value here and is caught.
\<close>

theorem normalize_naver_url_contract:
  "normalize_naver_url ''https://comic.naver.com/webtoon/detail?titleId=1&no=5''
     = (''https://m.comic.naver.com/webtoon/detail?titleId=1&no=5'', True) \<and>
   normalize_naver_url ''https://m.comic.naver.com/webtoon/detail?titleId=1&no=5''
     = (''https://m.comic.naver.com/webtoon/detail?titleId=1&no=5'', False) \<and>
   ((\<forall>p. urlparse u [] = Inr p \<longrightarrow>
        \<not> (endswith (lower (u_netloc p)) ''comic.naver.com''
           \<and> \<not> startswith (lower (u_netloc p)) ''m.''
           \<and> contains (u_path p) ''/webtoon/detail''))
     \<longrightarrow> normalize_naver_url u = (u, False)) \<and>
   (snd (normalize_naver_url u) = False \<longrightarrow> fst (normalize_naver_url u) = u)"
proof (intro conjI)
  show "normalize_naver_url ''https://comic.naver.com/webtoon/detail?titleId=1&no=5''
     = (''https://m.comic.naver.com/webtoon/detail?titleId=1&no=5'', True)"
    using normalize_desktop_url by (simp add: desktop_url_def mobile_url_def)
  show "normalize_naver_url ''https://m.comic.naver.com/webtoon/detail?titleId=1&no=5''
     = (''https://m.comic.naver.com/webtoon/detail?titleId=1&no=5'', False)"
    using normalize_mobile_url by (simp add: mobile_url_def)
  show "(\<forall>p. urlparse u [] = Inr p \<longrightarrow>
        \<not> (endswith (lower (u_netloc p)) ''comic.naver.com''
           \<and> \<not> startswith (lower (u_netloc p)) ''m.''
           \<and> contains (u_path p) ''/webtoon/detail''))
     \<longrightarrow> normalize_naver_url u = (u, False)"
    by (auto simp: normalize_naver_url_def Let_def split: sum.splits)
  show "snd (normalize_naver_url u) = False \<longrightarrow> fst (normalize_naver_url u) = u"
    by (auto simp: normalize_naver_url_def Let_def split: sum.splits)
qed

theorem normalize_naver_url_contract_witness:
  "urlparse broken_url [] = Inl (ValueError ''Invalid IPv6 URL'') \<and>
   normalize_naver_url broken_url = (broken_url, False)"
proof -
  have "\<forall>p. urlparse broken_url [] = Inr p \<longrightarrow>
        \<not> (endswith (lower (u_netloc p)) ''comic.naver.com''
           \<and> \<not> startswith (lower (u_netloc p)) ''m.''
           \<and> contains (u_path p) ''/webtoon/detail'')"
    by (simp add: urlparse_broken_url)
  with normalize_naver_url_contract[of broken_url] urlparse_broken_url
  show ?thesis by simp
qed

section \<open>The image URL extractor: order and duplicates\<close>

lemma set_dict_fromkeys [simp]: "set (dict_fromkeys xs) = set xs"
  by (induction xs) auto

lemma distinct_dict_fromkeys [simp]: "distinct (dict_fromkeys xs)"
  by (induction xs) auto

lemma dict_fromkeys_distinct: "distinct xs \<Longrightarrow> dict_fromkeys xs = xs"
  by (induction xs) (auto simp: filter_id_conv)

text \<open>Both loops keep \<open>seen\<close> equal to the set of \<open>urls\<close>, and \<open>urls\<close> free of duplicates.\<close>

lemma attr_scan_inv:
  "attr_scan base ms (urls, seen) = Inr (urls', seen') \<Longrightarrow> seen = set urls \<Longrightarrow> distinct urls
     \<Longrightarrow> seen' = set urls' \<and> distinct urls' \<and> set urls \<subseteq> set urls'"
proof (induction ms arbitrary: urls seen)
  case Nil
  then show ?case by auto
next
  case (Cons m ms)
  from Cons.prems show ?case
    by (auto simp: Let_def split: option.splits if_splits sum.splits dest!: Cons.IH)
qed

lemma bare_scan_inv:
  "bare_scan ms (urls, seen) = Inr (urls', seen') \<Longrightarrow> seen = set urls \<Longrightarrow> distinct urls
     \<Longrightarrow> seen' = set urls' \<and> distinct urls' \<and> set urls \<subseteq> set urls'"
proof (induction ms arbitrary: urls seen)
  case Nil
  then show ?case by auto
next
  case (Cons m ms)
  from Cons.prems show ?case
    by (auto simp: Let_def split: option.splits if_splits sum.splits dest!: Cons.IH)
qed

lemma final_order_props:
  "distinct (final_order urls)" "set (final_order urls) = set urls"
  "sorted (map (\<lambda>x. (url_sort_key x, index_of urls x)) (final_order urls))"
  by (simp_all add: final_order_def sorted_sort_key)

lemma sorted_keys_before:
  assumes "sorted (map f xs)" "i < length xs" "j < length xs" "f (xs ! i) < f (xs ! j)"
  shows "i < j"
proof (rule ccontr)
  assume "\<not> i < j"
  then have "j \<le> i" by simp
  with assms(1,2) have "map f xs ! j \<le> map f xs ! i"
    by (intro sorted_nth_mono) auto
  with assms show False by simp
qed

text \<open>The list the two loops collect, and what the last line makes of it.\<close>

lemma extract_image_urls_scans:
  assumes "extract_image_urls html base = Inr out"
  shows "\<exists>st urls seen.
        attr_scan base (finditer True img_attr_pattern html) ([], {}) = Inr st
      \<and> bare_scan (finditer True bare_url_pattern html) st = Inr (urls, seen)
      \<and> distinct urls \<and> distinct out \<and> set out = set urls \<and> length out = length urls
      \<and> sorted (map (\<lambda>x. (url_sort_key x, index_of urls x)) out)"
proof -
  from assms obtain st urls seen where
    a: "attr_scan base (finditer True img_attr_pattern html) ([], {}) = Inr st"
    and b: "bare_scan (finditer True bare_url_pattern html) st = Inr (urls, seen)"
    and out: "out = final_order urls"
    by (auto simp: extract_image_urls_def split: sum.splits)
  obtain u1 s1 where st: "st = (u1, s1)" by (cases st)
  from attr_scan_inv[OF a[unfolded st]] have "s1 = set u1" "distinct u1" by simp_all
  from bare_scan_inv[OF b[unfolded st] this] have d: "distinct urls" by simp
  have "length out = length urls"
    using d by (simp add: out final_order_def dict_fromkeys_distinct)
  with a b d out final_order_props[of urls] show ?thesis by auto
qed

lemma extract_pages_html:
  "extract_image_urls pages_html mobile_url =
     Inr [''https://image-comic.pstatic.net/x_p3.jpg'',
          ''https://image-comic.pstatic.net/x_p12.jpg'',
          ''https://image-comic.pstatic.net/cover.jpg'']"
  by code_simp







text \<open>
  Claim C5: the list the extractor returns has no duplicates. The attribute scan and the
  scan for bare URLs share one \<open>seen\<close> set of exact URL strings, so the list they collect
  has none either; the output is that list sorted by page key, and URLs with equal keys
  stay in the order in which they were first seen.
\<close>

theorem extract_has_no_duplicates:
  assumes "extract_image_urls html base = Inr out"
  shows "distinct out
       \<and> (\<exists>st urls seen.
            attr_scan base (finditer True img_attr_pattern html) ([], {}) = Inr st
          \<and> bare_scan (finditer True bare_url_pattern html) st = Inr (urls, seen)
          \<and> distinct urls \<and> seen = set urls \<and> set out = set urls
          \<and> sorted (map (\<lambda>x. (url_sort_key x, index_of urls x)) out)
          \<and> (\<forall>i j. i < length out \<and> j < length out
                \<and> url_sort_key (out ! i) = url_sort_key (out ! j)
                \<and> index_of urls (out ! i) < index_of urls (out ! j) \<longrightarrow> i < j))"
proof -
  from extract_image_urls_scans[OF assms] obtain st urls seen where
    sc: "attr_scan base (finditer True img_attr_pattern html) ([], {}) = Inr st"
      "bare_scan (finditer True bare_url_pattern html) st = Inr (urls, seen)"
      "distinct urls" "distinct out" "set out = set urls"
    and s: "sorted (map (\<lambda>x. (url_sort_key x, index_of urls x)) out)" by blast
  obtain u1 s1 where st: "st = (u1, s1)" by (cases st)
  from attr_scan_inv[OF sc(1)[unfolded st]] have "s1 = set u1" "distinct u1" by simp_all
  from bare_scan_inv[OF sc(2)[unfolded st] this] have seen: "seen = set urls" by simp
  have tie: "\<forall>i j. i < length out \<and> j < length out
                \<and> url_sort_key (out ! i) = url_sort_key (out ! j)
                \<and> index_of urls (out ! i) < index_of urls (out ! j) \<longrightarrow> i < j"
  proof (intro allI impI)
    fix i j
    assume h: "i < length out \<and> j < length out
                \<and> url_sort_key (out ! i) = url_sort_key (out ! j)
                \<and> index_of urls (out ! i) < index_of urls (out ! j)"
    then have "(url_sort_key (out ! i), index_of urls (out ! i))
        < (url_sort_key (out ! j), index_of urls (out ! j))"
      by (simp add: less_prod_def)
    with sorted_keys_before[OF s] h show "i < j" by blast
  qed
  from sc s seen tie show ?thesis by blast
qed

theorem extract_has_no_duplicates_witness:
  "extract_image_urls pages_html mobile_url =
     Inr [''https://image-comic.pstatic.net/x_p3.jpg'',
          ''https://image-comic.pstatic.net/x_p12.jpg'',
          ''https://image-comic.pstatic.net/cover.jpg'']
   \<and> distinct [''https://image-comic.pstatic.net/x_p3.jpg'',
          ''https://image-comic.pstatic.net/x_p12.jpg'',
          ''https://image-comic.pstatic.net/cover.jpg'']"
  using extract_has_no_duplicates[OF extract_pages_html] extract_pages_html by blast

section \<open>The attribute scan\<close>

lemma img_attr_pattern_parts:
  "img_attr_pattern =
     seq ([Lit ''<img'', Rep True 1 None (not_in ''>'')] @ attr_head @ [attr_value] @ attr_tail)"
  by (simp add: img_attr_pattern_def attr_head_def attr_value_def attr_tail_def)

text \<open>Characters that a literal character matches when case is ignored.\<close>

lemma lower_char_fixed:
  assumes "x \<in> set quote_chars \<or> x = CHR ''>'' \<or> x = CHR ''='' \<or> x = CHR ''<''"
  shows "lower_char x = x"
  using assms by (auto simp: lower_char_def quote_chars_def)

lemma lower_char_eq_punct:
  assumes "lower_char x = y" "y \<in> set quote_chars \<or> y = CHR ''>'' \<or> y = CHR ''='' \<or> y = CHR ''<''"
  shows "x = y"
proof (rule ccontr)
  assume ne: "x \<noteq> y"
  let ?n = "of_char x :: nat"
  from ne assms(1) have up: "(65 \<le> ?n \<and> ?n \<le> 90) \<or> (192 \<le> ?n \<and> ?n \<le> 222 \<and> ?n \<noteq> 215)"
    and y: "y = char_of (?n + 32)"
    by (auto simp: lower_char_def Let_def split: if_splits)
  from y have "(of_char y :: nat) = (?n + 32) mod 256" by simp
  with up have "(of_char y :: nat) = ?n + 32" by auto
  with up have "97 \<le> (of_char y :: nat)" by auto
  with assms(2) show False by (auto simp: quote_chars_def)
qed

lemma eq_char_punct:
  assumes "eq_char ic c x" "c \<in> set quote_chars \<or> c = CHR ''>'' \<or> c = CHR ''='' \<or> c = CHR ''<''"
  shows "x = c"
proof (cases ic)
  case False
  with assms show ?thesis by (simp add: eq_char_def)
next
  case True
  with assms(1) have "lower_char x = lower_char c" by (simp add: eq_char_def)
  with lower_char_fixed[OF assms(2)] have "lower_char x = c" by simp
  from lower_char_eq_punct[OF this assms(2)] show ?thesis .
qed

lemma eq_char_not_punct:
  assumes "eq_char ic c x" "x \<in> set quote_chars \<or> x = CHR ''>'' \<or> x = CHR ''='' \<or> x = CHR ''<''"
  shows "c = x"
proof (cases ic)
  case False
  with assms show ?thesis by (simp add: eq_char_def)
next
  case True
  with assms(1) have "lower_char c = lower_char x" by (simp add: eq_char_def)
  with lower_char_fixed[OF assms(2)] have "lower_char c = x" by simp
  from lower_char_eq_punct[OF this assms(2)] show ?thesis .
qed

text \<open>A text matched by a literal that has no quote and no \<open>>\<close> has none either.\<close>

lemma lit_match_clean:
  assumes "list_all2 (eq_char ic) t w" "\<forall>c\<in>set t. c \<notin> set quote_chars \<and> c \<noteq> CHR ''>''"
  shows "\<forall>x\<in>set w. x \<notin> set quote_chars \<and> x \<noteq> CHR ''>''"
proof
  fix x assume "x \<in> set w"
  then obtain i where i: "i < length w" "w ! i = x" by (auto simp: in_set_conv_nth)
  with assms(1) have e: "eq_char ic (t ! i) x" and "i < length t"
    by (auto simp: list_all2_conv_all_nth)
  then have m: "t ! i \<in> set t" by simp
  define c where "c = t ! i"
  from e m have c: "c \<in> set t" "eq_char ic c x" by (simp_all add: c_def)
  show "x \<notin> set quote_chars \<and> x \<noteq> CHR ''>''"
  proof (rule ccontr)
    assume "\<not> (x \<notin> set quote_chars \<and> x \<noteq> CHR ''>'')"
    then have "x \<in> set quote_chars \<or> x = CHR ''>'' \<or> x = CHR ''='' \<or> x = CHR ''<''" by auto
    from eq_char_not_punct[OF c(2) this] have "c = x" .
    with c(1) assms(2) \<open>\<not> (x \<notin> set quote_chars \<and> x \<noteq> CHR ''>'')\<close> show False by auto
  qed
qed

section \<open>The chapter label\<close>
















section \<open>The download orchestrator\<close>

lemma justified_mono: "justified d rf ov es r \<Longrightarrow> set es \<subseteq> set es' \<Longrightarrow> justified d rf ov es' r"
  unfolding justified_def by blast

lemma download_loop_inv:
  assumes "download_loop net dest_dir referer overwrite tot pad idx us (saved, metas) w
             = (Inr (saved', metas'), w')"
  shows "\<exists>new es. metas' = metas @ new
           \<and> saved' = saved @ map (\<lambda>r. dest_dir @ [im_filename r]) new
           \<and> trace w' = trace w @ es
           \<and> sorted_wrt (<) (map im_index new)
           \<and> (\<forall>r\<in>set new. idx \<le> im_index r \<and> im_index r < idx + length us
                 \<and> im_url r = us ! (im_index r - idx)
                 \<and> (\<exists>ext. infer_ext (im_url r) = Inr ext \<and> im_filename r = zero_pad pad (im_index r) @ ext)
                 \<and> justified dest_dir referer overwrite es r)"
  using assms
proof (induction us arbitrary: idx saved metas w)
  case Nil
  then show ?case by auto
next
  case (Cons u us)
  from Cons.prems obtain ext where ext: "infer_ext u = Inr ext"
    by (cases "infer_ext u") auto
  let ?name = "zero_pad pad idx @ ext"
  let ?out = "dest_dir @ [?name]"
  obtain found w1 where st: "stat_size ?out w = (found, w1)" by (cases "stat_size ?out w")
  then have w1: "trace w1 = trace w @ [Stat ?out found]"
    by (auto simp: stat_size_def Let_def)
  have step: "\<exists>new es. metas' = metas @ new
           \<and> saved' = saved @ map (\<lambda>r. dest_dir @ [im_filename r]) new
           \<and> trace w' = trace w @ es
           \<and> sorted_wrt (<) (map im_index new)
           \<and> (\<forall>r\<in>set new. idx \<le> im_index r \<and> im_index r < idx + length (u # us)
                 \<and> im_url r = (u # us) ! (im_index r - idx)
                 \<and> (\<exists>ext. infer_ext (im_url r) = Inr ext \<and> im_filename r = zero_pad pad (im_index r) @ ext)
                 \<and> justified dest_dir referer overwrite es r)"
    if rest: "download_loop net dest_dir referer overwrite tot pad (Suc idx) us (saved @ map (\<lambda>r. dest_dir @ [im_filename r]) hd_new, metas @ hd_new) w2
             = (Inr (saved', metas'), w')"
      and tr: "trace w2 = trace w @ es0"
      and hd_ok: "\<forall>r\<in>set hd_new. im_index r = idx \<and> im_url r = u \<and> im_filename r = ?name
                    \<and> justified dest_dir referer overwrite es0 r"
      and one: "length hd_new \<le> 1"
    for hd_new w2 es0
  proof -
    from Cons.IH[OF rest] obtain new es where
      n: "metas' = (metas @ hd_new) @ new"
         "saved' = (saved @ map (\<lambda>r. dest_dir @ [im_filename r]) hd_new) @ map (\<lambda>r. dest_dir @ [im_filename r]) new"
         "trace w' = trace w2 @ es"
         "sorted_wrt (<) (map im_index new)"
         "\<forall>r\<in>set new. Suc idx \<le> im_index r \<and> im_index r < Suc idx + length us
                 \<and> im_url r = us ! (im_index r - Suc idx)
                 \<and> (\<exists>ext. infer_ext (im_url r) = Inr ext \<and> im_filename r = zero_pad pad (im_index r) @ ext)
                 \<and> justified dest_dir referer overwrite es r"
      by blast
    have a: "\<forall>r\<in>set new. idx \<le> im_index r \<and> im_index r < idx + length (u # us)
                 \<and> im_url r = (u # us) ! (im_index r - idx)
                 \<and> (\<exists>ext. infer_ext (im_url r) = Inr ext \<and> im_filename r = zero_pad pad (im_index r) @ ext)
                 \<and> justified dest_dir referer overwrite (es0 @ es) r"
    proof
      fix r assume r: "r \<in> set new"
      with n(5) have f: "Suc idx \<le> im_index r" "im_index r < Suc idx + length us"
        "im_url r = us ! (im_index r - Suc idx)"
        "\<exists>ext. infer_ext (im_url r) = Inr ext \<and> im_filename r = zero_pad pad (im_index r) @ ext"
        "justified dest_dir referer overwrite es r" by auto
      from f(1) have "(u # us) ! (im_index r - idx) = us ! (im_index r - Suc idx)"
        by (metis Suc_diff_Suc Suc_le_lessD nth_Cons_Suc)
      with f justified_mono[OF f(5), of "es0 @ es"] show "idx \<le> im_index r \<and> im_index r < idx + length (u # us)
                 \<and> im_url r = (u # us) ! (im_index r - idx)
                 \<and> (\<exists>ext. infer_ext (im_url r) = Inr ext \<and> im_filename r = zero_pad pad (im_index r) @ ext)
                 \<and> justified dest_dir referer overwrite (es0 @ es) r"
        by auto
    qed
    have b: "\<forall>r\<in>set hd_new. idx \<le> im_index r \<and> im_index r < idx + length (u # us)
                 \<and> im_url r = (u # us) ! (im_index r - idx)
                 \<and> (\<exists>ext. infer_ext (im_url r) = Inr ext \<and> im_filename r = zero_pad pad (im_index r) @ ext)
                 \<and> justified dest_dir referer overwrite (es0 @ es) r"
      using hd_ok ext justified_mono[of dest_dir referer overwrite es0 _ "es0 @ es"] by auto
    have c: "sorted_wrt (<) (map im_index (hd_new @ new))"
    proof -
      have "sorted_wrt (<) (map im_index hd_new)"
        using one by (cases hd_new) auto
      moreover have "\<forall>x\<in>set hd_new. \<forall>y\<in>set new. im_index x < im_index y"
        using hd_ok n(5) by fastforce
      ultimately show ?thesis using n(4) by (simp add: sorted_wrt_append)
    qed
    show ?thesis
      apply (intro exI[of _ "hd_new @ new"] exI[of _ "es0 @ es"] conjI)
      subgoal using n(1) by simp
      subgoal using n(2) by simp
      subgoal using n(3) tr by simp
      subgoal using c .
      subgoal using a b by auto
      done
  qed
  show ?case
  proof (cases "found \<noteq> None \<and> \<not> overwrite")
    case True
    then obtain sz where sz: "found = Some sz" by auto
    let ?r = "\<lparr>im_index = idx, im_filename = ?name, im_url = u, im_size = sz\<rparr>"
    let ?w2 = "emit (Print (LSkip idx tot ?name sz)) w1"
    from Cons.prems ext st True sz
    have rest: "download_loop net dest_dir referer overwrite tot pad (Suc idx) us
          (saved @ map (\<lambda>r. dest_dir @ [im_filename r]) [?r], metas @ [?r]) ?w2 = (Inr (saved', metas'), w')"
      by (simp add: Let_def)
    have tr: "trace ?w2 = trace w @ [Stat ?out found, Print (LSkip idx tot ?name sz)]"
      using w1 by simp
    have "justified dest_dir referer overwrite [Stat ?out found, Print (LSkip idx tot ?name sz)] ?r"
      using True sz by (simp add: justified_def)
    then show ?thesis
      by (intro step[OF rest tr]) auto
  next
    case False
    note skip = this
    obtain fr w2 where f: "fetch net u (Some referer) 3 True w1 = (fr, w2)"
      by (cases "fetch net u (Some referer) 3 True w1")
    from fetch_trace[OF f] obtain fes where fes: "trace w2 = trace w1 @ fes"
      "\<forall>d i. fr = Inr (d, i) \<longrightarrow>
                 (\<exists>h. i = Some h
                    \<and> Urlopen \<lparr>req_url = u, req_headers = fetch_headers (Some referer)\<rparr> (Response d h) \<in> set fes)"
      by blast
    show ?thesis
    proof (cases fr)
      case (Inl e)
      let ?w3 = "emit (Print (LFailed idx tot u e)) w2"
      from Cons.prems ext st skip f Inl
      have rest: "download_loop net dest_dir referer overwrite tot pad (Suc idx) us
          (saved @ map (\<lambda>r. dest_dir @ [im_filename r]) [], metas @ []) ?w3 = (Inr (saved', metas'), w')"
        by (auto simp add: Let_def)
      have tr: "trace ?w3 = trace w @ ([Stat ?out found] @ fes @ [Print (LFailed idx tot u e)])"
        using w1 fes(1) by simp
      show ?thesis
        by (intro step[OF rest tr]) auto
    next
      case (Inr di)
      then obtain data h where di: "fr = Inr (data, Some h)"
        and op: "Urlopen \<lparr>req_url = u, req_headers = fetch_headers (Some referer)\<rparr> (Response data h) \<in> set fes"
        using fes(2) by (cases di) auto
      let ?ctype = "map_of h ''Content-Type''"
      show ?thesis
      proof (cases "is_image_bytes data ?ctype")
        case False
        let ?w3 = "emit (Print (LNotImage idx tot u ?ctype)) w2"
        from Cons.prems ext st skip f di False
        have rest: "download_loop net dest_dir referer overwrite tot pad (Suc idx) us
            (saved @ map (\<lambda>r. dest_dir @ [im_filename r]) [], metas @ []) ?w3 = (Inr (saved', metas'), w')"
          by (auto simp add: Let_def)
        have tr: "trace ?w3 = trace w @ ([Stat ?out found] @ fes @ [Print (LNotImage idx tot u ?ctype)])"
          using w1 fes(1) by simp
        show ?thesis
          by (intro step[OF rest tr]) auto
      next
        case True
        let ?r = "\<lparr>im_index = idx, im_filename = ?name, im_url = u, im_size = length data\<rparr>"
        let ?w5 = "emit (Sleep (1 / 20)) (emit (Print (LOk idx tot ?name)) (write_bytes ?out data w2))"
        from Cons.prems ext st skip f di True
        have rest: "download_loop net dest_dir referer overwrite tot pad (Suc idx) us
            (saved @ map (\<lambda>r. dest_dir @ [im_filename r]) [?r], metas @ [?r]) ?w5 = (Inr (saved', metas'), w')"
          by (auto simp add: Let_def)
        have tr: "trace ?w5 = trace w @ ([Stat ?out found] @ fes
              @ [WriteBytes ?out data, Print (LOk idx tot ?name), Sleep (1 / 20)])"
          using w1 fes(1) by (simp add: write_bytes_def)
        have "justified dest_dir referer overwrite ([Stat ?out found] @ fes
              @ [WriteBytes ?out data, Print (LOk idx tot ?name), Sleep (1 / 20)]) ?r"
          using op True by (auto simp: justified_def)
        then show ?thesis
          by (intro step[OF rest tr]) auto
      qed
    qed
  qed
qed

lemma str_nat_digits: "str_nat n \<noteq> [] \<and> (\<forall>c\<in>set (str_nat n). digit c)"
proof (induction n rule: str_nat.induct)
  case (1 n)
  have d: "digit (''0123456789'' ! k)" if "k < 10" for k :: nat
    unfolding digit_def using that by (intro nth_mem) simp
  show ?case
  proof (cases "n < 10")
    case True
    then show ?thesis using d[of n] by (subst (1 2) str_nat.simps) simp
  next
    case False
    with 1 have "str_nat (n div 10) \<noteq> [] \<and> (\<forall>c\<in>set (str_nat (n div 10)). digit c)" by simp
    moreover have "digit (''0123456789'' ! (n mod 10))" by (rule d) simp
    ultimately show ?thesis using False by (subst (1 2) str_nat.simps) auto
  qed
qed

lemma zero_pad_hd: "zero_pad w n @ ext \<noteq> [] \<and> digit (hd (zero_pad w n @ ext))"
proof -
  have z: "digit (CHR ''0'')" by (simp add: digit_def)
  from str_nat_digits[of n] have s: "str_nat n \<noteq> []" "digit (hd (str_nat n))"
    by (cases "str_nat n"; simp)+
  show ?thesis
  proof (cases "w - length (str_nat n)")
    case 0
    with s show ?thesis by (simp add: zero_pad_def)
  next
    case (Suc k)
    with z show ?thesis by (simp add: zero_pad_def)
  qed
qed

lemma image_name_not_listing: "zero_pad w n @ ext \<noteq> ''.urls.txt''"
proof
  assume "zero_pad w n @ ext = ''.urls.txt''"
  with zero_pad_hd[of w n ext] have "digit (CHR ''.'')" by simp
  then show False by (simp add: digit_def)
qed

lemma fetch_disk:
  assumes "fetch net u referer attempts ri w = (res, w')"
  shows "disk w' = disk w"
proof -
  obtain r where "fetch_loop net \<lparr>req_url = u, req_headers = fetch_headers referer\<rparr> attempts 1 (1 / 2) None w = (r, w')"
    using assms by (auto simp: fetch_def split: prod.splits sum.splits)
  from fetch_loop_run[OF this] show ?thesis by (elim exE conjE)
qed

lemma split_on_line:
  "CHR 0x0A \<notin> set u \<Longrightarrow> split_on (CHR 0x0A) (u @ CHR 0x0A # rest) = u # split_on (CHR 0x0A) rest"
  by (induction u) (auto split: list.splits)

lemma split_join_lines:
  assumes "urls \<noteq> []" "\<forall>u\<in>set urls. CHR 0x0A \<notin> set u"
  shows "split_on (CHR 0x0A) (join newline urls @ newline) = urls @ [[]]"
  using assms
proof (induction urls rule: list_nonempty_induct)
  case (single x)
  then show ?case using split_on_line[of x "[]"] by (simp add: newline_def)
next
  case (cons x xs)
  then obtain y ys where xs: "xs = y # ys" by (cases xs) auto
  have "join newline (x # xs) @ newline = x @ CHR 0x0A # (join newline xs @ newline)"
    by (simp add: xs newline_def)
  moreover have "split_on (CHR 0x0A) (join newline xs @ newline) = xs @ [[]]"
    using cons by simp
  ultimately show ?case using split_on_line[of x] cons.prems by simp
qed

text \<open>The loop writes image files only, whatever its result.\<close>

lemma download_loop_effects:
  assumes "download_loop net dest_dir referer overwrite tot pad idx us (saved, metas) w = (res, w')"
  shows "\<exists>es. trace w' = trace w @ es
           \<and> (\<forall>p. (\<forall>i ext. p \<noteq> dest_dir @ [zero_pad pad i @ ext]) \<longrightarrow> disk w' p = disk w p)"
  using assms
proof (induction us arbitrary: idx saved metas w)
  case Nil
  then show ?case by auto
next
  case (Cons u us)
  show ?case
  proof (cases "infer_ext u")
    case (Inl e)
    with Cons.prems show ?thesis by auto
  next
    case (Inr ext)
    let ?name = "zero_pad pad idx @ ext"
    let ?out = "dest_dir @ [?name]"
    obtain found w1 where st: "stat_size ?out w = (found, w1)" by (cases "stat_size ?out w")
    then have w1: "trace w1 = trace w @ [Stat ?out found]" "disk w1 = disk w"
      by (auto simp: stat_size_def Let_def)
    have step: "\<exists>es. trace w' = trace w @ es
           \<and> (\<forall>p. (\<forall>i ext. p \<noteq> dest_dir @ [zero_pad pad i @ ext]) \<longrightarrow> disk w' p = disk w p)"
      if rest: "download_loop net dest_dir referer overwrite tot pad (Suc idx) us (sv, ms) w2 = (res, w')"
        and tr: "trace w2 = trace w @ es0"
        and dk: "\<forall>p. (\<forall>i ext. p \<noteq> dest_dir @ [zero_pad pad i @ ext]) \<longrightarrow> disk w2 p = disk w p"
      for sv ms w2 es0
    proof -
      from Cons.IH[OF rest] obtain es where
        "trace w' = trace w2 @ es"
        "\<forall>p. (\<forall>i ext. p \<noteq> dest_dir @ [zero_pad pad i @ ext]) \<longrightarrow> disk w' p = disk w2 p"
        by blast
      with tr dk show ?thesis
        by (intro exI[of _ "es0 @ es"]) simp
    qed
    show ?thesis
    proof (cases "found \<noteq> None \<and> \<not> overwrite")
      case True
      then obtain sz where sz: "found = Some sz" by auto
      let ?r = "\<lparr>im_index = idx, im_filename = ?name, im_url = u, im_size = sz\<rparr>"
      let ?w2 = "emit (Print (LSkip idx tot ?name sz)) w1"
      from Cons.prems Inr st True sz
      have rest: "download_loop net dest_dir referer overwrite tot pad (Suc idx) us
            (saved @ [?out], metas @ [?r]) ?w2 = (res, w')"
        by (simp add: Let_def)
      show ?thesis
        by (rule step[OF rest, of "[Stat ?out found, Print (LSkip idx tot ?name sz)]"]) (simp_all add: w1)
    next
      case False
      note skip = this
      obtain fr w2 where f: "fetch net u (Some referer) 3 True w1 = (fr, w2)"
        by (cases "fetch net u (Some referer) 3 True w1")
      from fetch_trace[OF f] obtain fes where fes: "trace w2 = trace w1 @ fes" by blast
      from fetch_disk[OF f] have d2: "disk w2 = disk w1" .
      show ?thesis
      proof (cases fr)
        case (Inl e)
        let ?w3 = "emit (Print (LFailed idx tot u e)) w2"
        from Cons.prems Inr st skip f Inl
        have rest: "download_loop net dest_dir referer overwrite tot pad (Suc idx) us
              (saved, metas) ?w3 = (res, w')"
          by (auto simp add: Let_def)
        show ?thesis
          by (rule step[OF rest, of "[Stat ?out found] @ fes @ [Print (LFailed idx tot u e)]"])
            (simp_all add: w1 fes d2)
      next
        case (Inr di)
        obtain data info where di: "di = (data, info)" by (cases di)
        let ?ctype = "case info of None \<Rightarrow> None | Some hdrs \<Rightarrow> map_of hdrs ''Content-Type''"
        show ?thesis
        proof (cases "is_image_bytes data ?ctype")
          case False
          let ?w3 = "emit (Print (LNotImage idx tot u ?ctype)) w2"
          from Cons.prems \<open>infer_ext u = Inr ext\<close> st skip f Inr di False
          have rest: "download_loop net dest_dir referer overwrite tot pad (Suc idx) us
                (saved, metas) ?w3 = (res, w')"
            by (auto simp add: Let_def)
          show ?thesis
            by (rule step[OF rest, of "[Stat ?out found] @ fes @ [Print (LNotImage idx tot u ?ctype)]"])
              (simp_all add: w1 fes d2)
        next
          case True
          let ?r = "\<lparr>im_index = idx, im_filename = ?name, im_url = u, im_size = length data\<rparr>"
          let ?w5 = "emit (Sleep (1 / 20)) (emit (Print (LOk idx tot ?name)) (write_bytes ?out data w2))"
          from Cons.prems \<open>infer_ext u = Inr ext\<close> st skip f Inr di True
          have rest: "download_loop net dest_dir referer overwrite tot pad (Suc idx) us
                (saved @ [?out], metas @ [?r]) ?w5 = (res, w')"
            by (auto simp add: Let_def)
          show ?thesis
            by (rule step[OF rest, of "[Stat ?out found] @ fes
                @ [WriteBytes ?out data, Print (LOk idx tot ?name), Sleep (1 / 20)]"])
              (auto simp add: w1 fes d2 write_bytes_def)
        qed
      qed
    qed
  qed
qed

lemma demo_result:
  "fst (download_images demo_net demo_urls demo_dest mobile_url False (Some demo_meta_dir) world1)
     = Inr ([demo_dest @ [''001.jpg''], demo_dest @ [''003.png'']],
            [\<lparr>im_index = 1, im_filename = ''001.jpg'',
              im_url = ''https://image-comic.pstatic.net/a_p1.jpg'', im_size = 7\<rparr>,
             \<lparr>im_index = 3, im_filename = ''003.png'',
              im_url = ''https://image-comic.pstatic.net/a_p3.png'', im_size = 3\<rparr>])"
  by code_simp

lemma demo_trace_start:
  "take 3 (trace (snd (download_images demo_net demo_urls demo_dest mobile_url False (Some demo_meta_dir) world1)))
     = [Mkdir demo_dest, Mkdir demo_meta_dir,
        WriteText (demo_meta_dir @ [''.urls.txt''])
          (''https://image-comic.pstatic.net/a_p1.jpg'' @ newline @
           ''https://image-comic.pstatic.net/a_p2.jpg'' @ newline @
           ''https://image-comic.pstatic.net/a_p3.png'' @ newline)]"
  by code_simp

text \<open>
  Claim C9: every call of the orchestrator first creates the two directories and then
  writes \<open>.urls.txt\<close> in the metadata directory, with all candidate URLs in their order,
  joined by newlines and ended by one; everything done for the single images (looking
  at the target file, the requests, the writes) comes after that in the trace, whatever
  the network answers and whatever the call returns. The images are written to other
  paths, so the listing is still on disk at the end. For a list that is not empty and
  whose URLs hold no newline, the lines of the listing are exactly the candidates.
\<close>

theorem urls_listing_written_first:
  "(let md = (case meta_dir of None \<Rightarrow> dest_dir | Some d \<Rightarrow> d);
        listing = join newline urls @ newline;
        w' = snd (download_images net urls dest_dir referer overwrite meta_dir w)
    in (\<exists>per_image. trace w' = trace w @ [Mkdir dest_dir, Mkdir md, WriteText (md @ [''.urls.txt'']) listing]
                         @ per_image)
       \<and> disk w' (md @ [''.urls.txt'']) = Some (utf8 listing)
       \<and> (urls \<noteq> [] \<and> (\<forall>u\<in>set urls. CHR 0x0A \<notin> set u)
             \<longrightarrow> split_on (CHR 0x0A) listing = urls @ [[]]))"
proof -
  let ?md = "case meta_dir of None \<Rightarrow> dest_dir | Some d \<Rightarrow> d"
  let ?listing = "join newline urls @ newline"
  let ?w3 = "write_text (?md @ [''.urls.txt'']) ?listing (mkdir ?md (mkdir dest_dir w))"
  let ?pad = "max 3 (length (str_nat (length urls)))"
  obtain res w' where run: "download_loop net dest_dir referer overwrite (length urls) ?pad 1 urls ([], []) ?w3 = (res, w')"
    by (cases "download_loop net dest_dir referer overwrite (length urls) ?pad 1 urls ([], []) ?w3")
  then have w': "snd (download_images net urls dest_dir referer overwrite meta_dir w) = w'"
    by (simp add: download_images_def Let_def)
  from download_loop_effects[OF run] obtain es where
    es: "trace w' = trace ?w3 @ es"
    and dk: "\<forall>p. (\<forall>i ext. p \<noteq> dest_dir @ [zero_pad ?pad i @ ext]) \<longrightarrow> disk w' p = disk ?w3 p"
    by blast
  have t3: "trace ?w3 = trace w @ [Mkdir dest_dir, Mkdir ?md, WriteText (?md @ [''.urls.txt'']) ?listing]"
    by (simp add: write_text_def mkdir_def)
  have "\<forall>i ext. ?md @ [''.urls.txt''] \<noteq> dest_dir @ [zero_pad ?pad i @ ext]"
    using image_name_not_listing by (metis append1_eq_conv)
  with dk have "disk w' (?md @ [''.urls.txt'']) = disk ?w3 (?md @ [''.urls.txt''])" by blast
  then have d: "disk w' (?md @ [''.urls.txt'']) = Some (utf8 ?listing)"
    by (simp add: write_text_def)
  have a: "\<exists>per_image. trace w' = trace w @ [Mkdir dest_dir, Mkdir ?md, WriteText (?md @ [''.urls.txt'']) ?listing]
                         @ per_image"
    using es t3 by (intro exI[of _ es]) simp
  have l: "urls \<noteq> [] \<and> (\<forall>u\<in>set urls. CHR 0x0A \<notin> set u)
             \<longrightarrow> split_on (CHR 0x0A) ?listing = urls @ [[]]"
    using split_join_lines by blast
  from a d l show ?thesis
    unfolding Let_def w' by (intro conjI)
qed

theorem urls_listing_written_first_witness:
  "take 3 (trace (snd (download_images demo_net demo_urls demo_dest mobile_url False (Some demo_meta_dir) world1)))
     = [Mkdir demo_dest, Mkdir demo_meta_dir,
        WriteText (demo_meta_dir @ [''.urls.txt''])
          (''https://image-comic.pstatic.net/a_p1.jpg'' @ newline @
           ''https://image-comic.pstatic.net/a_p2.jpg'' @ newline @
           ''https://image-comic.pstatic.net/a_p3.png'' @ newline)]
   \<and> split_on (CHR 0x0A) (join newline demo_urls @ newline) = demo_urls @ [[]]"
proof -
  have ne: "demo_urls \<noteq> [] \<and> (\<forall>u\<in>set demo_urls. CHR 0x0A \<notin> set u)"
    by (simp add: demo_urls_def)
  have "demo_urls \<noteq> [] \<and> (\<forall>u\<in>set demo_urls. CHR 0x0A \<notin> set u)
         \<longrightarrow> split_on (CHR 0x0A) (join newline demo_urls @ newline) = demo_urls @ [[]]"
    using urls_listing_written_first[where meta_dir = "Some demo_meta_dir" and dest_dir = demo_dest
        and urls = demo_urls and net = demo_net and referer = mobile_url and overwrite = False
        and w = world1]
    unfolding Let_def by (elim conjE)
  with ne have "split_on (CHR 0x0A) (join newline demo_urls @ newline) = demo_urls @ [[]]"
    by (rule rev_mp)
  with demo_trace_start show ?thesis by (intro conjI)
qed

text \<open>
  Claim C10: when the orchestrator returns, the list of saved paths and the list of
  records have the same length and the \<open>k\<close>-th path is the destination directory
  followed by the file name of the \<open>k\<close>-th record. The index fields increase strictly;
  each is a position from 1 in the candidate list, the record holds the URL at that
  position, and the file name is the index padded with zeros followed by the extension
  of the URL. Each record has its reason among the effects of the call: overwriting is
  off and the target file was found, with the recorded size; or a request for the URL
  was answered, the payload passed \<open>is_image_bytes\<close> with the content type of the
  answer, the payload was written to the target file and its length is the recorded
  size.
\<close>

theorem download_records_match_saved_paths:
  assumes "download_images net urls dest_dir referer overwrite meta_dir w
             = (Inr (saved_paths, metas), w')"
  shows "length saved_paths = length metas
       \<and> (\<forall>k<length metas. saved_paths ! k = dest_dir @ [im_filename (metas ! k)])
       \<and> sorted_wrt (<) (map im_index metas)
       \<and> (\<exists>es. trace w' = trace w @ es
            \<and> (\<forall>r\<in>set metas.
                  1 \<le> im_index r \<and> im_index r \<le> length urls
                \<and> im_url r = urls ! (im_index r - 1)
                \<and> (\<exists>ext. infer_ext (im_url r) = Inr ext
                      \<and> im_filename r = zero_pad (max 3 (length (str_nat (length urls)))) (im_index r) @ ext)
                \<and> justified dest_dir referer overwrite es r))"
proof -
  let ?md = "case meta_dir of None \<Rightarrow> dest_dir | Some d \<Rightarrow> d"
  let ?listing = "join newline urls @ newline"
  let ?w3 = "write_text (?md @ [''.urls.txt'']) ?listing (mkdir ?md (mkdir dest_dir w))"
  let ?pad = "max 3 (length (str_nat (length urls)))"
  from assms have run: "download_loop net dest_dir referer overwrite (length urls) ?pad 1 urls ([], []) ?w3
      = (Inr (saved_paths, metas), w')"
    by (simp add: download_images_def Let_def)
  from download_loop_inv[OF run] obtain new es where
    n: "metas = [] @ new" "saved_paths = [] @ map (\<lambda>r. dest_dir @ [im_filename r]) new"
       "trace w' = trace ?w3 @ es" "sorted_wrt (<) (map im_index new)"
       "\<forall>r\<in>set new. 1 \<le> im_index r \<and> im_index r < 1 + length urls
                 \<and> im_url r = urls ! (im_index r - 1)
                 \<and> (\<exists>ext. infer_ext (im_url r) = Inr ext \<and> im_filename r = zero_pad ?pad (im_index r) @ ext)
                 \<and> justified dest_dir referer overwrite es r"
    by blast
  let ?es = "[Mkdir dest_dir, Mkdir ?md, WriteText (?md @ [''.urls.txt'']) ?listing] @ es"
  have tr: "trace w' = trace w @ ?es"
    using n(3) by (simp add: write_text_def mkdir_def)
  have each: "\<forall>r\<in>set metas.
                  1 \<le> im_index r \<and> im_index r \<le> length urls
                \<and> im_url r = urls ! (im_index r - 1)
                \<and> (\<exists>ext. infer_ext (im_url r) = Inr ext
                      \<and> im_filename r = zero_pad ?pad (im_index r) @ ext)
                \<and> justified dest_dir referer overwrite ?es r"
  proof
    fix r assume "r \<in> set metas"
    with n(1) n(5) have f: "1 \<le> im_index r" "im_index r < 1 + length urls"
      "im_url r = urls ! (im_index r - 1)"
      "\<exists>ext. infer_ext (im_url r) = Inr ext \<and> im_filename r = zero_pad ?pad (im_index r) @ ext"
      "justified dest_dir referer overwrite es r" by auto
    from justified_mono[OF f(5), of ?es] have "justified dest_dir referer overwrite ?es r" by auto
    with f show "1 \<le> im_index r \<and> im_index r \<le> length urls
                \<and> im_url r = urls ! (im_index r - 1)
                \<and> (\<exists>ext. infer_ext (im_url r) = Inr ext
                      \<and> im_filename r = zero_pad ?pad (im_index r) @ ext)
                \<and> justified dest_dir referer overwrite ?es r"
      by auto
  qed
  have len: "length saved_paths = length metas" using n(1,2) by simp
  have nth: "\<forall>k<length metas. saved_paths ! k = dest_dir @ [im_filename (metas ! k)]"
    using n(1,2) by simp
  have srt: "sorted_wrt (<) (map im_index metas)" using n(1,4) by simp
  have ex: "\<exists>es. trace w' = trace w @ es
            \<and> (\<forall>r\<in>set metas.
                  1 \<le> im_index r \<and> im_index r \<le> length urls
                \<and> im_url r = urls ! (im_index r - 1)
                \<and> (\<exists>ext. infer_ext (im_url r) = Inr ext
                      \<and> im_filename r = zero_pad ?pad (im_index r) @ ext)
                \<and> justified dest_dir referer overwrite es r)"
    using tr each by (intro exI[of _ ?es] conjI)
  from len nth srt ex show ?thesis by (intro conjI)
qed

theorem download_records_match_saved_paths_witness:
  "fst (download_images demo_net demo_urls demo_dest mobile_url False (Some demo_meta_dir) world1)
     = Inr ([demo_dest @ [''001.jpg''], demo_dest @ [''003.png'']],
            [\<lparr>im_index = 1, im_filename = ''001.jpg'',
              im_url = ''https://image-comic.pstatic.net/a_p1.jpg'', im_size = 7\<rparr>,
             \<lparr>im_index = 3, im_filename = ''003.png'',
              im_url = ''https://image-comic.pstatic.net/a_p3.png'', im_size = 3\<rparr>])
   \<and> sorted_wrt (<) (map im_index
            [\<lparr>im_index = 1, im_filename = ''001.jpg'',
              im_url = ''https://image-comic.pstatic.net/a_p1.jpg'', im_size = 7\<rparr>,
             \<lparr>im_index = 3, im_filename = ''003.png'',
              im_url = ''https://image-comic.pstatic.net/a_p3.png'', im_size = 3\<rparr>])"
proof -
  obtain w' where run: "download_images demo_net demo_urls demo_dest mobile_url False (Some demo_meta_dir) world1
     = (Inr ([demo_dest @ [''001.jpg''], demo_dest @ [''003.png'']],
            [\<lparr>im_index = 1, im_filename = ''001.jpg'',
              im_url = ''https://image-comic.pstatic.net/a_p1.jpg'', im_size = 7\<rparr>,
             \<lparr>im_index = 3, im_filename = ''003.png'',
              im_url = ''https://image-comic.pstatic.net/a_p3.png'', im_size = 3\<rparr>]), w')"
    using demo_result
    by (cases "download_images demo_net demo_urls demo_dest mobile_url False (Some demo_meta_dir) world1") simp
  from download_records_match_saved_paths[OF run] have "sorted_wrt (<) (map im_index
            [\<lparr>im_index = 1, im_filename = ''001.jpg'',
              im_url = ''https://image-comic.pstatic.net/a_p1.jpg'', im_size = 7\<rparr>,
             \<lparr>im_index = 3, im_filename = ''003.png'',
              im_url = ''https://image-comic.pstatic.net/a_p3.png'', im_size = 3\<rparr>])"
    by (elim conjE)
  with demo_result show ?thesis by (intro conjI)
qed

end
